theory Spec2Isabelle
  imports Main "HOL-Library.Word" "HOL-Library.Multiset"
begin

unbundle bit_operations_syntax

section \<open>The hash array mapped trie (HAMT)\<close>

subsection \<open>JavaScript numbers, as far as the trie uses them\<close>

text \<open>
  The trie's masks and hashes are JavaScript numbers that always hold a 32-bit integer
  (the result of a bitwise operator or of \<open>Math.imul(..) + .. | 0\<close>); they are
  \<open>32 word\<close>s here. A value that may be \<open>undefined\<close> (the result of
  \<open>getNthPrefix\<close>) is an option, \<open>None\<close> being \<open>undefined\<close>. A shift
  count is converted with ToUint32 and taken modulo 32; \<open>undefined\<close> and
  \<open>NaN\<close> (which is what \<open>undefined + 1\<close> is) both convert to 0.
\<close>

type_synonym jsstring = "16 word list"

definition toInt32 :: "int \<Rightarrow> 32 word" where
  "toInt32 x = word_of_int x"

definition shiftCount :: "nat option \<Rightarrow> nat" where
  "shiftCount b = (case b of None \<Rightarrow> 0 | Some n \<Rightarrow> n mod 32)"

definition plusOne :: "nat option \<Rightarrow> nat option" where
  "plusOne b = map_option Suc b"

text \<open>\<open>checkBit(n, bit) = ((n >> bit) & 0b1) === 0b1\<close>\<close>

definition checkBit :: "32 word \<Rightarrow> nat option \<Rightarrow> bool" where
  "checkBit n b = (signed_drop_bit (shiftCount b) n AND 1 = 1)"

text \<open>\<open>setBit(n, bit) = n | (0b1 << bit)\<close>\<close>

definition setBit :: "32 word \<Rightarrow> nat option \<Rightarrow> 32 word" where
  "setBit n b = n OR push_bit (shiftCount b) 1"

text \<open>\<open>getNthPrefix(n, stage)\<close>: \<open>undefined\<close> when \<open>stage > 5\<close>, else
  \<open>(n >> (5 * stage)) & 0b11111\<close>.\<close>

definition getNthPrefix :: "32 word \<Rightarrow> nat \<Rightarrow> nat option" where
  "getNthPrefix n stage =
     (if stage > 5 then None
      else Some (unat (signed_drop_bit ((5 * stage) mod 32) n AND 31)))"

text \<open>\<open>hashString\<close>: \<open>h = Math.imul(31, h) + s.charCodeAt(i) | 0\<close> over the
  UTF-16 code units of the string.\<close>

fun hashLoop :: "32 word \<Rightarrow> jsstring \<Rightarrow> 32 word" where
  "hashLoop h [] = h"
| "hashLoop h (c # cs) = hashLoop (31 * h + ucast c) cs"

definition hashString :: "jsstring \<Rightarrow> 32 word" where
  "hashString s = hashLoop 0 s"

text \<open>
  \<open>popCount\<close> computes on JavaScript numbers: \<open>-\<close>, \<open>+\<close> and \<open>*\<close> are
  exact on the integers that occur (all below \<open>2^53\<close>), and every bitwise operator
  first converts its operands with ToInt32. Operator precedence makes the last line
  \<open>(((n + (n >> 4)) & 0xF0F0F0F) * 0x1010101) >> 24\<close>.
\<close>

definition popCount :: "int \<Rightarrow> int" where
  "popCount n0 =
     (let n1 = n0 - sint (signed_drop_bit 1 (toInt32 n0) AND 0x55555555);
          n2 = sint (toInt32 n1 AND 0x33333333)
               + sint (signed_drop_bit 2 (toInt32 n1) AND 0x33333333);
          n3 = sint (toInt32 (n2 + sint (signed_drop_bit 4 (toInt32 n2))) AND 0xF0F0F0F)
      in sint (signed_drop_bit 24 (toInt32 (n3 * 0x1010101))))"

text \<open>\<open>n >>> b\<close>: the result is an unsigned 32-bit integer.\<close>

definition ushr :: "32 word \<Rightarrow> nat option \<Rightarrow> int" where
  "ushr n b = uint (drop_bit (shiftCount b) n)"

text \<open>\<open>bitIndex === 31 ? 0 : popCount(current.mask >>> (bitIndex + 1))\<close>\<close>

definition childIndexOf :: "32 word \<Rightarrow> nat option \<Rightarrow> int" where
  "childIndexOf m bitIndex =
     (if bitIndex = Some 31 then 0 else popCount (ushr m (plusOne bitIndex)))"

subsection \<open>Arrays\<close>

text \<open>Reading \<open>arr[i]\<close>: \<open>None\<close> is \<open>undefined\<close>, the result out of range.\<close>

definition at :: "'a list \<Rightarrow> int \<Rightarrow> 'a option" where
  "at xs i = (if 0 \<le> i \<and> i < int (length xs) then Some (xs ! nat i) else None)"

text \<open>Writing \<open>arr[i] = v\<close> for \<open>i \<ge> 0\<close>: past the end, JavaScript extends the
  array with holes.\<close>

definition store :: "'a \<Rightarrow> 'a list \<Rightarrow> int \<Rightarrow> 'a \<Rightarrow> 'a list" where
  "store hole xs i v =
     (if i < int (length xs) then xs[nat i := v]
      else xs @ replicate (nat i - length xs) hole @ [v])"

text \<open>\<open>copyInsert(elem, index, arr)\<close>: the loop pushes \<open>elem\<close> before
  \<open>arr[index]\<close>; after the loop it pushes \<open>elem\<close> when \<open>index\<close> is the length;
  for any other index \<open>elem\<close> is not inserted.\<close>

fun copyInsertLoop :: "'a \<Rightarrow> int \<Rightarrow> int \<Rightarrow> 'a list \<Rightarrow> 'a list \<Rightarrow> 'a list \<times> int" where
  "copyInsertLoop elem index i [] res = (res, i)"
| "copyInsertLoop elem index i (a # arr) res =
     copyInsertLoop elem index (i + 1) arr
       ((if i = index then res @ [elem] else res) @ [a])"

definition copyInsert :: "'a \<Rightarrow> int \<Rightarrow> 'a list \<Rightarrow> 'a list" where
  "copyInsert elem index arr =
     (case copyInsertLoop elem index 0 arr [] of
        (res, i) \<Rightarrow> if index = i then res @ [elem] else res)"

subsection \<open>Nodes, \<open>get\<close> and \<open>set\<close>\<close>

text \<open>
  A node has the mask and the three parallel arrays. An entry of \<open>nexts\<close> is a node
  or \<open>null\<close> (\<open>None\<close>); an entry of \<open>values\<close> is a value or a hole. Nodes are
  never mutated after they are built (\<open>set\<close> copies every node and array it
  writes to), so they are values here.
\<close>

datatype 'v hamt_node =
  HNode (mask: "32 word") (keys: "jsstring list") (vals: "'v option list")
        (nexts: "'v hamt_node option list")

datatype 'v ref = Undefined | Null | Ref "'v hamt_node"

datatype error = TypeError | BadChildIndex

definition emptyNode :: "'v hamt_node" where
  "emptyNode = HNode 0 [] [] []"

definition nextRef :: "'v hamt_node \<Rightarrow> int \<Rightarrow> 'v ref" where
  "nextRef current childIndex =
     (case at (nexts current) childIndex of
        None \<Rightarrow> Undefined
      | Some None \<Rightarrow> Null
      | Some (Some n) \<Rightarrow> Ref n)"

lemma at_mem: "at xs i = Some x \<Longrightarrow> x \<in> set xs"
proof -
  assume a: "at xs i = Some x"
  then have "nat i < length xs" and "xs ! nat i = x"
    by (auto simp: at_def split: if_splits)
  then show ?thesis using nth_mem by blast
qed

lemma size_nextRef:
  "nextRef current childIndex = Ref n \<Longrightarrow> size n < size current"
proof -
  assume a: "nextRef current childIndex = Ref n"
  then have "at (nexts current) childIndex = Some (Some n)"
    by (auto simp: nextRef_def split: option.splits)
  then have "Some n \<in> set (nexts current)"
    by (rule at_mem)
  then have "size n < Suc (size_list (size_option size) ns)" if "ns = nexts current" for ns
    unfolding that [symmetric] by (induction ns) auto
  then show ?thesis by (cases current) simp
qed

text \<open>
  The loop of \<open>get\<close>. It runs while \<open>current !== null\<close>; \<open>undefined\<close> is not
  \<open>null\<close>, so an \<open>undefined\<close> \<open>current\<close> enters the body, where reading
  \<open>current.mask\<close> throws a TypeError.
\<close>

function get_loop :: "jsstring \<Rightarrow> 32 word \<Rightarrow> nat \<Rightarrow> 'v ref \<Rightarrow> error + 'v option" where
  "get_loop key hash stage Null = Inr None"
| "get_loop key hash stage Undefined = Inl TypeError"
| "get_loop key hash stage (Ref current) =
     (let bitIndex = getNthPrefix hash stage in
      if checkBit (mask current) bitIndex then
        let childIndex = childIndexOf (mask current) bitIndex in
        if at (keys current) childIndex = Some key
        then Inr (Option.bind (at (vals current) childIndex) id)
        else get_loop key hash (stage + 1) (nextRef current childIndex)
      else Inr None)"
  by pat_completeness auto
termination
proof (relation "measure (\<lambda>(key, hash, stage, r). case r of Ref n \<Rightarrow> Suc (size n) | _ \<Rightarrow> 0)")
  show "wf (measure (\<lambda>(key, hash, stage, r). case r of Ref n \<Rightarrow> Suc (size n) | _ \<Rightarrow> 0))"
    by simp
next
  fix key :: jsstring and hash :: "32 word" and stage :: nat and current :: "'v hamt_node"
    and x xa
  show "((key, hash, stage + 1, nextRef current xa), key, hash, stage, Ref current)
          \<in> measure (\<lambda>(key, hash, stage, r). case r of Ref n \<Rightarrow> Suc (size n) | _ \<Rightarrow> 0)"
    by (cases "nextRef current xa") (auto dest: size_nextRef)
qed

text \<open>
  The recursive closure \<open>f\<close> of \<open>set\<close>. The flag \<open>isNewKey\<close>, which the closure
  clears when it overwrites a value, is returned beside the node.
\<close>

function f :: "jsstring \<Rightarrow> 'v \<Rightarrow> 32 word \<Rightarrow> nat \<Rightarrow> 'v hamt_node
    \<Rightarrow> error + ('v hamt_node \<times> bool)" where
  "f key value hash stage current =
     (let bitIndex = getNthPrefix hash stage;
          childIndex = childIndexOf (mask current) bitIndex
      in if checkBit (mask current) bitIndex then
           if at (keys current) childIndex = Some key
           then Inr (HNode (mask current) (keys current)
                       (store None (vals current) childIndex (Some value))
                       (nexts current), False)
           else (case nextRef current childIndex of
                   Undefined \<Rightarrow> Inl BadChildIndex
                 | Null \<Rightarrow>
                     (case f key value hash (stage + 1) emptyNode of
                        Inl e \<Rightarrow> Inl e
                      | Inr (child, isNewKey) \<Rightarrow>
                          Inr (HNode (mask current) (keys current) (vals current)
                                 ((nexts current)[nat childIndex := Some child]), isNewKey))
                 | Ref n \<Rightarrow>
                     (case f key value hash (stage + 1) n of
                        Inl e \<Rightarrow> Inl e
                      | Inr (child, isNewKey) \<Rightarrow>
                          Inr (HNode (mask current) (keys current) (vals current)
                                 ((nexts current)[nat childIndex := Some child]), isNewKey)))
         else Inr (HNode (setBit (mask current) bitIndex)
                     (copyInsert key childIndex (keys current))
                     (copyInsert (Some value) childIndex (vals current))
                     (copyInsert None childIndex (nexts current)), True))"
  by pat_completeness auto
termination
proof (relation "measure (\<lambda>(key, value, hash, stage, n). size n)")
  show "wf (measure (\<lambda>(key, value, hash, stage, n :: 'v hamt_node). size n))"
    by simp
next
  fix key :: jsstring and v :: 'v and hash :: "32 word" and stage :: nat
    and current :: "'v hamt_node" and x xa
  assume "nextRef current xa = Null"
  then have "nexts current \<noteq> []"
    by (auto simp: nextRef_def at_def split: option.splits if_splits)
  then have "size (emptyNode :: 'v hamt_node) < size current"
    by (cases current; cases "nexts current") (auto simp: emptyNode_def)
  then show "((key, v, hash, stage + 1, emptyNode), key, v, hash, stage, current)
       \<in> measure (\<lambda>(key, value, hash, stage, n). size n)"
    by simp
next
  fix key :: jsstring and v :: 'v and hash :: "32 word" and stage :: nat
    and current :: "'v hamt_node" and x xa x3
  assume "nextRef current xa = Ref x3"
  then show "((key, v, hash, stage + 1, x3), key, v, hash, stage, current)
       \<in> measure (\<lambda>(key, value, hash, stage, n). size n)"
    by (auto dest: size_nextRef)
qed

record 'v HAMT =
  hamt_root :: "'v hamt_node"
  hamt_size :: int

definition hamt_new :: "'v HAMT" where
  "hamt_new = \<lparr>hamt_root = emptyNode, hamt_size = 0\<rparr>"

definition hamt_get :: "'v HAMT \<Rightarrow> jsstring \<Rightarrow> error + 'v option" where
  "hamt_get h key = get_loop key (hashString key) 0 (Ref (hamt_root h))"

definition hamt_set :: "'v HAMT \<Rightarrow> jsstring \<Rightarrow> 'v \<Rightarrow> error + 'v HAMT" where
  "hamt_set h key value =
     (case f key value (hashString key) 0 (hamt_root h) of
        Inl e \<Rightarrow> Inl e
      | Inr (r, isNewKey) \<Rightarrow>
          Inr \<lparr>hamt_root = r,
               hamt_size = (if isNewKey then 1 + hamt_size h else hamt_size h)\<rparr>)"

text \<open>A sequence of \<open>set\<close> calls, each on the version the one before returned; it
  stops at the first call that throws.\<close>

fun hamt_setAll :: "'v HAMT \<Rightarrow> (jsstring \<times> 'v) list \<Rightarrow> error + 'v HAMT" where
  "hamt_setAll h [] = Inr h"
| "hamt_setAll h ((k, v) # kvs) =
     (case hamt_set h k v of Inl e \<Rightarrow> Inl e | Inr h' \<Rightarrow> hamt_setAll h' kvs)"

text \<open>Eight strings with the same hash (\<open>"Aa"\<close> and \<open>"BB"\<close> hash alike, so do
  their concatenations), as UTF-16 code units.\<close>

definition AaAaAa :: jsstring where "AaAaAa = [65, 97, 65, 97, 65, 97]"
definition BBAaAa :: jsstring where "BBAaAa = [66, 66, 65, 97, 65, 97]"
definition AaBBAa :: jsstring where "AaBBAa = [65, 97, 66, 66, 65, 97]"
definition BBBBAa :: jsstring where "BBBBAa = [66, 66, 66, 66, 65, 97]"
definition AaAaBB :: jsstring where "AaAaBB = [65, 97, 65, 97, 66, 66]"
definition BBAaBB :: jsstring where "BBAaBB = [66, 66, 65, 97, 66, 66]"
definition AaBBBB :: jsstring where "AaBBBB = [65, 97, 66, 66, 66, 66]"
definition BBBBBB :: jsstring where "BBBBBB = [66, 66, 66, 66, 66, 66]"

text \<open>The trie after \<open>set\<close> of the first six of them, and after the seventh.\<close>

definition six :: "nat HAMT" where
  "six = \<lparr>hamt_root =
        HNode 1 [AaAaAa] [Some 1]
         [Some (HNode 64 [BBAaAa] [Some 2]
           [Some (HNode 67108864 [AaBBAa] [Some 3]
             [Some (HNode 2 [BBBBAa] [Some 4]
               [Some (HNode 64 [AaAaBB] [Some 5]
                 [Some (HNode 67108864 [BBAaBB] [Some 6] [None])])])])])],
        hamt_size = 6\<rparr>"

definition seven :: "nat HAMT" where
  "seven = \<lparr>hamt_root =
        HNode 1 [AaAaAa] [Some 1]
         [Some (HNode 64 [BBAaAa] [Some 2]
           [Some (HNode 67108864 [AaBBAa] [Some 3]
             [Some (HNode 2 [BBBBAa] [Some 4]
               [Some (HNode 64 [AaAaBB] [Some 5]
                 [Some (HNode 67108864 [BBAaBB] [Some 6]
                   [Some (HNode 1 [AaBBBB] [Some 7] [None])])])])])])],
        hamt_size = 7\<rparr>"

subsection \<open>Slots and their array positions\<close>

text \<open>The set bits of a mask strictly above bit \<open>i\<close>, strictly below it, and all
  of them, counted.\<close>

definition countAbove :: "32 word \<Rightarrow> nat \<Rightarrow> nat" where
  "countAbove m i = length (filter (bit m) [Suc i..<32])"

definition countBelow :: "32 word \<Rightarrow> nat \<Rightarrow> nat" where
  "countBelow m i = length (filter (bit m) [0..<i])"

definition countAll :: "32 word \<Rightarrow> nat" where
  "countAll m = length (filter (bit m) [0..<32])"

text \<open>All keys stored in a node and below it; the nodes of a trie, each with the stage
  at which \<open>get\<close> and \<open>set\<close> reach it (the root at stage 0).\<close>

fun allKeys :: "'v hamt_node \<Rightarrow> jsstring list" where
  "allKeys (HNode m ks vs ns) =
     ks @ concat (map (\<lambda>c. case c of None \<Rightarrow> [] | Some n \<Rightarrow> allKeys n) ns)"

fun nodesAt :: "nat \<Rightarrow> 'v hamt_node \<Rightarrow> (nat \<times> 'v hamt_node) list" where
  "nodesAt stage (HNode m ks vs ns) =
     (stage, HNode m ks vs ns)
     # concat (map (\<lambda>c. case c of None \<Rightarrow> [] | Some n \<Rightarrow> nodesAt (Suc stage) n) ns)"

text \<open>
  The slots of a node at a stage: the three arrays have one entry per set bit of the
  mask, and for every set bit \<open>i\<close> the entry at the index \<open>countAbove mask i\<close>
  belongs to slot \<open>i\<close>: its key has the hash index \<open>i\<close> at this stage, its value
  is not a hole, and every key stored below its child has the hash index \<open>i\<close> at this
  stage.
\<close>

definition childKeys :: "'v hamt_node \<Rightarrow> nat \<Rightarrow> jsstring list" where
  "childKeys n idx = (case nexts n ! idx of None \<Rightarrow> [] | Some c \<Rightarrow> allKeys c)"

definition slot_ok :: "nat \<Rightarrow> 'v hamt_node \<Rightarrow> bool" where
  "slot_ok stage n =
     (length (keys n) = countAll (mask n) \<and> length (vals n) = countAll (mask n)
      \<and> length (nexts n) = countAll (mask n)
      \<and> (\<forall>i \<in> set [0..<32]. bit (mask n) i \<longrightarrow>
            getNthPrefix (hashString (keys n ! countAbove (mask n) i)) stage = Some i
            \<and> vals n ! countAbove (mask n) i \<noteq> None
            \<and> (\<forall>k \<in> set (childKeys n (countAbove (mask n) i)).
                  getNthPrefix (hashString k) stage = Some i)))"

text \<open>Every node of a trie that \<open>get\<close> and \<open>set\<close> reach at a stage from 0
  to 5 has its slots in order.\<close>

definition trie_ok :: "nat \<Rightarrow> 'v hamt_node \<Rightarrow> bool" where
  "trie_ok stage n = (\<forall>(s, n') \<in> set (nodesAt stage n). s \<le> 5 \<longrightarrow> slot_ok s n')"

text \<open>The value last set for a key by a sequence of \<open>set\<close> calls.\<close>

definition latest :: "(jsstring \<times> 'v) list \<Rightarrow> jsstring \<Rightarrow> 'v option" where
  "latest kvs = map_of (rev kvs)"

text \<open>
  The values of a node, with respect to what was last set for each key: for every set bit
  \<open>i\<close> the entry of \<open>values\<close> at the index \<open>countAbove mask i\<close> is the value last set
  for the key at that index of \<open>keys\<close>, and that key is not stored again below the child
  at that index of \<open>nexts\<close>.
\<close>

definition vals_ok :: "(jsstring \<Rightarrow> 'v option) \<Rightarrow> 'v hamt_node \<Rightarrow> bool" where
  "vals_ok M n =
     (\<forall>i \<in> set [0..<32]. bit (mask n) i \<longrightarrow>
        vals n ! countAbove (mask n) i = M (keys n ! countAbove (mask n) i)
        \<and> keys n ! countAbove (mask n) i \<notin> set (childKeys n (countAbove (mask n) i)))"

definition trie_vals_ok :: "nat \<Rightarrow> (jsstring \<Rightarrow> 'v option) \<Rightarrow> 'v hamt_node \<Rightarrow> bool" where
  "trie_vals_ok stage M n = (\<forall>(s, n') \<in> set (nodesAt stage n). s \<le> 5 \<longrightarrow> vals_ok M n')"

subsection \<open>Auxiliary definitions for the correctness of \<open>popCount\<close>\<close>

text \<open>The number of ones in the binary representation of a natural number; the masks
  of \<open>popCount\<close> by the number of their digits; the digit-wise counts after each
  of its steps; its steps on natural numbers.\<close>

function bc :: "nat \<Rightarrow> nat" where
  "bc n = (if n = 0 then 0 else n mod 2 + bc (n div 2))"
  by pat_completeness auto
termination by (relation "measure id") auto

declare bc.simps [simp del]

fun M1 :: "nat \<Rightarrow> nat" where "M1 0 = 0" | "M1 (Suc k) = 1 + 4 * M1 k"

fun M2 :: "nat \<Rightarrow> nat" where "M2 0 = 0" | "M2 (Suc k) = 3 + 16 * M2 k"

fun M3 :: "nat \<Rightarrow> nat" where "M3 0 = 0" | "M3 (Suc k) = 15 + 256 * M3 k"

fun D4 :: "nat \<Rightarrow> nat \<Rightarrow> nat" where
  "D4 0 n = 0" | "D4 (Suc k) n = bc (n mod 4) + 4 * D4 k (n div 4)"

fun D16 :: "nat \<Rightarrow> nat \<Rightarrow> nat" where
  "D16 0 n = 0" | "D16 (Suc k) n = bc (n mod 16) + 16 * D16 k (n div 16)"

fun D256 :: "nat \<Rightarrow> nat \<Rightarrow> nat" where
  "D256 0 n = 0" | "D256 (Suc k) n = bc (n mod 256) + 256 * D256 k (n div 256)"

definition s2 :: "nat \<Rightarrow> nat \<Rightarrow> nat" where
  "s2 k X = (X AND M2 k) + ((X div 4) AND M2 k)"

definition s3 :: "nat \<Rightarrow> nat \<Rightarrow> nat" where
  "s3 k X = (X + X div 16) AND M3 k"

definition pcn :: "nat \<Rightarrow> nat" where
  "pcn n = (let n1 = n - ((n div 2) AND 0x55555555);
                n2 = (n1 AND 0x33333333) + ((n1 div 4) AND 0x33333333);
                n3 = (n2 + n2 div 16) AND 0xF0F0F0F
            in ((n3 * 0x1010101) mod 2 ^ 32) div 2 ^ 24)"

section \<open>The red-black trees\<close>

subsection \<open>Nodes and references to nodes\<close>

datatype color = Red | Black

datatype Ordering = LT | GT | EQ

type_synonym 'k CompareFn = "'k \<Rightarrow> 'k \<Rightarrow> Ordering"

datatype ('k, 'v, 'a) tree =
  Leaf
  | Node color "('k, 'v, 'a) tree" 'k 'v 'a "('k, 'v, 'a) tree"

datatype dir = L | R

datatype ('k, 'v, 'a) frame =
  Frame (fdir: dir) (fcolor: color) (fkey: 'k) (fval: 'v) (faug: 'a)
        (fsib: "('k, 'v, 'a) tree")

type_synonym ('k, 'v, 'a) hook = "('k, 'v, 'a) tree \<Rightarrow> 'k \<Rightarrow> ('k, 'v, 'a) tree \<Rightarrow> 'a"

fun color_of :: "('k, 'v, 'a) tree \<Rightarrow> color" where
  "color_of Leaf = Black"
| "color_of (Node c l k v a r) = c"

fun paint :: "color \<Rightarrow> ('k, 'v, 'a) tree \<Rightarrow> ('k, 'v, 'a) tree" where
  "paint c Leaf = Leaf"
| "paint c (Node c' l k v a r) = Node c l k v a r"

fun refresh :: "('k, 'v, 'a) hook \<Rightarrow> ('k, 'v, 'a) tree \<Rightarrow> ('k, 'v, 'a) tree" where
  "refresh upd Leaf = Leaf"
| "refresh upd (Node c l k v a r) = Node c l k v (upd l k r) r"

fun up :: "('k, 'v, 'a) frame \<Rightarrow> ('k, 'v, 'a) tree \<Rightarrow> ('k, 'v, 'a) tree" where
  "up (Frame L c k v a s) t = Node c t k v a s"
| "up (Frame R c k v a s) t = Node c s k v a t"

fun down :: "dir \<Rightarrow> ('k, 'v, 'a) tree \<Rightarrow> error + (('k, 'v, 'a) frame \<times> ('k, 'v, 'a) tree)" where
  "down d Leaf = Inl TypeError"
| "down L (Node c l k v a r) = Inr (Frame L c k v a r, l)"
| "down R (Node c l k v a r) = Inr (Frame R c k v a l, r)"

fun plug :: "('k, 'v, 'a) frame list \<Rightarrow> ('k, 'v, 'a) tree \<Rightarrow> ('k, 'v, 'a) tree" where
  "plug [] t = t"
| "plug (fr # fs) t = plug fs (up fr t)"

definition setColor :: "color \<Rightarrow> ('k, 'v, 'a) frame \<Rightarrow> ('k, 'v, 'a) frame" where
  "setColor c fr = Frame (fdir fr) c (fkey fr) (fval fr) (faug fr) (fsib fr)"

definition setSib :: "('k, 'v, 'a) tree \<Rightarrow> ('k, 'v, 'a) frame \<Rightarrow> ('k, 'v, 'a) frame" where
  "setSib s fr = Frame (fdir fr) (fcolor fr) (fkey fr) (fval fr) (faug fr) s"

definition isChild :: "dir \<Rightarrow> ('k, 'v, 'a) frame \<Rightarrow> ('k, 'v, 'a) tree \<Rightarrow> bool" where
  "isChild d fr t = (fdir fr = d \<or> (t = Leaf \<and> fsib fr = Leaf))"

definition pathOf :: "('k, 'v, 'a) frame list \<Rightarrow> dir list" where
  "pathOf fs = rev (map fdir fs)"

definition refreshFrame :: "('k, 'v, 'a) hook \<Rightarrow> ('k, 'v, 'a) frame \<Rightarrow> ('k, 'v, 'a) tree
    \<Rightarrow> ('k, 'v, 'a) frame" where
  "refreshFrame upd fr t =
     Frame (fdir fr) (fcolor fr) (fkey fr) (fval fr)
       (if fdir fr = L then upd t (fkey fr) (fsib fr) else upd (fsib fr) (fkey fr) t) (fsib fr)"

fun updateParentsMax :: "('k, 'v, 'a) hook \<Rightarrow> ('k, 'v, 'a) frame list \<Rightarrow> ('k, 'v, 'a) tree
    \<Rightarrow> ('k, 'v, 'a) frame list" where
  "updateParentsMax upd [] t = []"
| "updateParentsMax upd (fr # fs) t =
     refreshFrame upd fr t # updateParentsMax upd fs (up (refreshFrame upd fr t) t)"

fun updateAlong :: "('k, 'v, 'a) hook \<Rightarrow> ('k, 'v, 'a) tree \<Rightarrow> dir list \<Rightarrow> ('k, 'v, 'a) tree" where
  "updateAlong upd t [] = t"
| "updateAlong upd Leaf (d # ds) = Leaf"
| "updateAlong upd (Node c l k v a r) (L # ds) = refresh upd (Node c (updateAlong upd l ds) k v a r)"
| "updateAlong upd (Node c l k v a r) (R # ds) = refresh upd (Node c l k v a (updateAlong upd r ds))"

subsection \<open>Rotations\<close>

fun rotateLeft :: "('k, 'v, 'a) hook \<Rightarrow> ('k, 'v, 'a) tree \<Rightarrow> error + ('k, 'v, 'a) tree" where
  "rotateLeft upd (Node c l k v a (Node yc yl yk yv ya yr)) =
     Inr (refresh upd (Node yc (refresh upd (Node c l k v a yl)) yk yv ya yr))"
| "rotateLeft upd t = Inl TypeError"

fun rotateRight :: "('k, 'v, 'a) hook \<Rightarrow> ('k, 'v, 'a) tree \<Rightarrow> error + ('k, 'v, 'a) tree" where
  "rotateRight upd (Node c (Node yc yl yk yv ya yr) k v a r) =
     Inr (refresh upd (Node yc yl yk yv ya (refresh upd (Node c yr k v a r))))"
| "rotateRight upd t = Inl TypeError"

fun relocLeft :: "dir list \<Rightarrow> dir list" where
  "relocLeft [] = [L]"
| "relocLeft (L # r) = L # L # r"
| "relocLeft [R] = []"
| "relocLeft (R # L # r) = L # R # r"
| "relocLeft (R # R # r) = R # r"

fun relocRight :: "dir list \<Rightarrow> dir list" where
  "relocRight [] = [R]"
| "relocRight (R # r) = R # R # r"
| "relocRight [L] = []"
| "relocRight (L # R # r) = R # L # r"
| "relocRight (L # L # r) = L # r"

definition reloc :: "(dir list \<Rightarrow> dir list) \<Rightarrow> dir list \<Rightarrow> dir list \<Rightarrow> dir list" where
  "reloc rel q np =
     (if take (length q) np = q then q @ rel (drop (length q) np) else np)"

subsection \<open>The fix-ups of the abstract class\<close>

fun insertFixup :: "('k, 'v, 'a) hook \<Rightarrow> ('k, 'v, 'a) frame list \<Rightarrow> ('k, 'v, 'a) tree
    \<Rightarrow> dir list \<Rightarrow> error + (('k, 'v, 'a) tree \<times> dir list)" where
  "insertFixup upd [] t np = Inr (paint Black t, np)"
| "insertFixup upd [p] t np =
     (if fcolor p = Red then Inl TypeError
      else Inr (paint Black (plug [p] t), np))"
| "insertFixup upd (p # g # fs) t np =
     (if fcolor p \<noteq> Red then Inr (paint Black (plug (p # g # fs) t), np)
      else if fdir g = L then
        (if color_of (fsib g) = Red then
           insertFixup upd fs
             (up (setSib (paint Black (fsib g)) (setColor Red g)) (up (setColor Black p) t)) np
         else
           (case (if isChild R p t then
                    (case rotateLeft upd (up p t) of
                       Inl e \<Rightarrow> Inl e
                     | Inr P \<Rightarrow>
                         (case down L P of
                            Inl e \<Rightarrow> Inl e
                          | Inr (n, x) \<Rightarrow> Inr (n, x, reloc relocLeft (pathOf (g # fs)) np)))
                  else Inr (p, t, np)) of
              Inl e \<Rightarrow> Inl e
            | Inr (p1, t1, np1) \<Rightarrow>
                (case rotateRight upd (up (setColor Red g) (up (setColor Black p1) t1)) of
                   Inl e \<Rightarrow> Inl e
                 | Inr G \<Rightarrow>
                     (case down L G of
                        Inl e \<Rightarrow> Inl e
                      | Inr (p2, t2) \<Rightarrow>
                          insertFixup upd (p2 # fs) t2 (reloc relocRight (pathOf fs) np1)))))
      else
        (if color_of (fsib g) = Red then
           insertFixup upd fs
             (up (setSib (paint Black (fsib g)) (setColor Red g)) (up (setColor Black p) t)) np
         else
           (case (if isChild L p t then
                    (case rotateRight upd (up p t) of
                       Inl e \<Rightarrow> Inl e
                     | Inr P \<Rightarrow>
                         (case down R P of
                            Inl e \<Rightarrow> Inl e
                          | Inr (n, x) \<Rightarrow> Inr (n, x, reloc relocRight (pathOf (g # fs)) np)))
                  else Inr (p, t, np)) of
              Inl e \<Rightarrow> Inl e
            | Inr (p1, t1, np1) \<Rightarrow>
                (case rotateLeft upd (up (setColor Red g) (up (setColor Black p1) t1)) of
                   Inl e \<Rightarrow> Inl e
                 | Inr G \<Rightarrow>
                     (case down R G of
                        Inl e \<Rightarrow> Inl e
                      | Inr (p2, t2) \<Rightarrow>
                          insertFixup upd (p2 # fs) t2 (reloc relocLeft (pathOf fs) np1))))))"

text \<open>The first case of \<open>deleteFixup\<close>: a red sibling \<open>w\<close> is made black, the
  parent red, and the parent is rotated towards \<open>x\<close>; \<open>x\<close> keeps its parent,
  whose other child is the new \<open>w\<close>.\<close>

definition redSibling :: "dir \<Rightarrow> ('k, 'v, 'a) hook \<Rightarrow> ('k, 'v, 'a) frame \<Rightarrow> ('k, 'v, 'a) frame list
    \<Rightarrow> ('k, 'v, 'a) tree \<Rightarrow> error + (('k, 'v, 'a) frame \<times> ('k, 'v, 'a) frame list)" where
  "redSibling d upd p fs t =
     (if color_of (fsib p) = Red then
        (case (if d = L then rotateLeft upd else rotateRight upd)
                (up (setSib (paint Black (fsib p)) (setColor Red p)) t) of
           Inl e \<Rightarrow> Inl e
         | Inr W \<Rightarrow>
             (case down d W of
                Inl e \<Rightarrow> Inl e
              | Inr (fw, P) \<Rightarrow>
                  (case down d P of
                     Inl e \<Rightarrow> Inl e
                   | Inr (fp, x) \<Rightarrow> Inr (fp, fw # fs))))
      else Inr (p, fs))"

text \<open>The last two cases: the far child of \<open>w\<close> is made red's opposite by a
  rotation of \<open>w\<close> if needed, then the parent is rotated towards \<open>x\<close>. The
  result is the subtree that takes the parent's place.\<close>

definition farRed :: "dir \<Rightarrow> ('k, 'v, 'a) hook \<Rightarrow> ('k, 'v, 'a) frame \<Rightarrow> ('k, 'v, 'a) tree
    \<Rightarrow> error + ('k, 'v, 'a) tree" where
  "farRed d upd p t =
     (case fsib p of
        Leaf \<Rightarrow> Inl TypeError
      | Node wc wl wk wv wa wr \<Rightarrow>
          (case (if d = L then
                   (if color_of wr = Black
                    then rotateRight upd (Node Red (paint Black wl) wk wv wa wr)
                    else Inr (Node wc wl wk wv wa wr))
                 else
                   (if color_of wl = Black
                    then rotateLeft upd (Node Red wl wk wv wa (paint Black wr))
                    else Inr (Node wc wl wk wv wa wr))) of
             Inl e \<Rightarrow> Inl e
           | Inr Leaf \<Rightarrow> Inl TypeError
           | Inr (Node c l k v a r) \<Rightarrow>
               (if d = L
                then rotateLeft upd
                       (up (setSib (Node (fcolor p) l k v a (paint Black r)) (setColor Black p)) t)
                else rotateRight upd
                       (up (setSib (Node (fcolor p) (paint Black l) k v a r) (setColor Black p)) t))))"

lemma color_of_up: "color_of (up fr t) = fcolor fr"
  by (cases fr; cases "fdir fr") auto

lemma down_color: "down d P = Inr (fp, x) \<Longrightarrow> fcolor fp = color_of P"
  by (cases P; cases d) auto

lemma rotateLeft_down:
  "rotateLeft upd T = Inr W \<Longrightarrow> down L W = Inr (fw, P) \<Longrightarrow> color_of P = color_of T"
  by (induction upd T rule: rotateLeft.induct) auto

lemma rotateRight_down:
  "rotateRight upd T = Inr W \<Longrightarrow> down R W = Inr (fw, P) \<Longrightarrow> color_of P = color_of T"
  by (induction upd T rule: rotateRight.induct) auto

lemma redSibling_length:
  assumes "redSibling d upd p fs t = Inr (p1, fs1)"
  shows "fs1 = fs \<or> (length fs1 = Suc (length fs) \<and> fcolor p1 = Red)"
proof (cases "color_of (fsib p) = Red")
  case False
  then show ?thesis using assms by (simp add: redSibling_def)
next
  case True
  let ?T = "up (setSib (paint Black (fsib p)) (setColor Red p)) t"
  have cT: "color_of ?T = Red" by (simp add: color_of_up setSib_def setColor_def)
  from assms True obtain W fw P x where
    W: "(if d = L then rotateLeft upd else rotateRight upd) ?T = Inr W"
    and P: "down d W = Inr (fw, P)" and x: "down d P = Inr (p1, x)" and fs1: "fs1 = fw # fs"
    by (auto simp: redSibling_def split: sum.splits)
  have "color_of P = Red"
    using W P cT rotateLeft_down [of upd ?T W fw P] rotateRight_down [of upd ?T W fw P]
    by (cases d) auto
  then show ?thesis using down_color [OF x] fs1 by simp
qed

function deleteFixup :: "('k, 'v, 'a) hook \<Rightarrow> ('k, 'v, 'a) frame list \<Rightarrow> ('k, 'v, 'a) tree
    \<Rightarrow> error + ('k, 'v, 'a) tree" where
  "deleteFixup upd [] t = Inr (paint Black t)"
| "deleteFixup upd (p # fs) t =
     (if color_of t \<noteq> Black then Inr (plug (p # fs) (paint Black t))
      else
        (let d = (if isChild L p t then L else R) in
         case redSibling d upd p fs t of
           Inl e \<Rightarrow> Inl e
         | Inr (p1, fs1) \<Rightarrow>
             (case fsib p1 of
                Leaf \<Rightarrow> Inl TypeError
              | Node wc wl wk wv wa wr \<Rightarrow>
                  if color_of wl = Black \<and> color_of wr = Black
                  then deleteFixup upd fs1 (up (setSib (Node Red wl wk wv wa wr) p1) t)
                  else (case farRed d upd p1 t of
                          Inl e \<Rightarrow> Inl e
                        | Inr W \<Rightarrow> deleteFixup upd [] (plug fs1 W)))))"
  by pat_completeness auto
termination
  apply (relation "measure (\<lambda>(upd, fs, t). 2 * length fs + (if color_of t = Black then 1 else 0))")
    apply simp
  subgoal for upd p fs t x b xa y
    using redSibling_length [of x upd p fs t xa y]
    by (auto simp: color_of_up setSib_def)
  subgoal by simp
  done

subsection \<open>Looking up, inserting and deleting\<close>

fun descend :: "'k CompareFn \<Rightarrow> 'k \<Rightarrow> ('k, 'v, 'a) frame list \<Rightarrow> ('k, 'v, 'a) tree
    \<Rightarrow> ('k, 'v, 'a) frame list \<times> ('k, 'v, 'a) tree" where
  "descend cmp key fs Leaf = (fs, Leaf)"
| "descend cmp key fs (Node c l k v a r) =
     (case cmp key k of
        EQ \<Rightarrow> (fs, Node c l k v a r)
      | LT \<Rightarrow> descend cmp key (Frame L c k v a r # fs) l
      | GT \<Rightarrow> descend cmp key (Frame R c k v a l # fs) r)"

definition rb_find :: "'k CompareFn \<Rightarrow> 'k \<Rightarrow> ('k, 'v, 'a) tree
    \<Rightarrow> (('k, 'v, 'a) frame list \<times> ('k, 'v, 'a) tree) option" where
  "rb_find cmp key root =
     (case descend cmp key [] root of
        (fs, Leaf) \<Rightarrow> None
      | (fs, Node c l k v a r) \<Rightarrow> Some (fs, Node c l k v a r))"

definition attach :: "'k CompareFn \<Rightarrow> 'k \<Rightarrow> ('k, 'v, 'a) frame list \<Rightarrow> ('k, 'v, 'a) frame list" where
  "attach cmp key fs =
     (case fs of
        [] \<Rightarrow> []
      | p # fs' \<Rightarrow>
          (let d = (if cmp key (fkey p) = LT then L else R)
           in if d = fdir p then p # fs'
              else Frame d (fcolor p) (fkey p) (fval p) (faug p) Leaf # fs'))"

record ('k, 'v, 'a) rbt =
  rb_root :: "('k, 'v, 'a) tree"
  rb_size :: int

definition insertNode :: "('k, 'v, 'a) hook \<Rightarrow> 'k CompareFn \<Rightarrow> ('k, 'v, 'a) rbt \<Rightarrow> 'k \<Rightarrow> 'v
    \<Rightarrow> error + ('k, 'v, 'a) rbt" where
  "insertNode upd cmp s key value =
     (case descend cmp key [] (rb_root s) of
        (fs, Node c l k v a r) \<Rightarrow> Inr (s\<lparr>rb_root := plug fs (Node c l k value a r)\<rparr>)
      | (fs, Leaf) \<Rightarrow>
          (let fs' = attach cmp key fs;
               node = Node Red Leaf key value (upd Leaf key Leaf) Leaf
           in case insertFixup upd fs' node (pathOf fs') of
                Inl e \<Rightarrow> Inl e
              | Inr (t, np) \<Rightarrow> Inr \<lparr>rb_root = updateAlong upd t np, rb_size = rb_size s + 1\<rparr>))"

fun leftmost :: "('k, 'v, 'a) frame list \<Rightarrow> ('k, 'v, 'a) tree
    \<Rightarrow> ('k, 'v, 'a) frame list \<times> ('k, 'v, 'a) tree" where
  "leftmost fs Leaf = (fs, Leaf)"
| "leftmost fs (Node c Leaf k v a r) = (fs, Node c Leaf k v a r)"
| "leftmost fs (Node c (Node lc ll lk lv la lr) k v a r) =
     leftmost (Frame L c k v a r # fs) (Node lc ll lk lv la lr)"

definition copyInto :: "'k \<Rightarrow> 'v \<Rightarrow> ('k, 'v, 'a) frame \<Rightarrow> ('k, 'v, 'a) frame" where
  "copyInto k v fr = Frame (fdir fr) (fcolor fr) k v (faug fr) (fsib fr)"

definition deleteNode :: "('k, 'v, 'a) hook \<Rightarrow> ('k, 'v, 'a) frame list \<Rightarrow> ('k, 'v, 'a) tree
    \<Rightarrow> error + ('k, 'v, 'a) tree" where
  "deleteNode upd fz z =
     (case z of
        Leaf \<Rightarrow> Inr (plug fz Leaf)
      | Node zc zl zk zv za zr \<Rightarrow>
          (let (ys, y) = (if zl = Leaf \<or> zr = Leaf then ([], z)
                          else leftmost [Frame R zc zk zv za zl] zr)
           in case y of
                Leaf \<Rightarrow> Inl TypeError
              | Node yc yl yk yv ya yr \<Rightarrow>
                  (let x = (if yl \<noteq> Leaf then yl else yr);
                       fs0 = (case ys @ fz of [] \<Rightarrow> [] | p # ps \<Rightarrow> refreshFrame upd p x # ps);
                       fs1 = updateParentsMax upd fs0 x;
                       fs2 = (if ys = [] then fs1
                              else (let nearFs = take (length ys - 1) fs1;
                                        zf = refreshFrame upd (copyInto yk yv (fs1 ! (length ys - 1)))
                                               (plug nearFs x);
                                        farFs = updateParentsMax upd (drop (length ys) fs1)
                                                  (up zf (plug nearFs x))
                                    in nearFs @ zf # farFs))
                   in if yc = Black then deleteFixup upd fs2 x else Inr (plug fs2 x))))"

definition rb_get :: "'k CompareFn \<Rightarrow> ('k, 'v, 'a) rbt \<Rightarrow> 'k \<Rightarrow> 'v option" where
  "rb_get cmp s key =
     (case rb_find cmp key (rb_root s) of
        None \<Rightarrow> None
      | Some (fs, Leaf) \<Rightarrow> None
      | Some (fs, Node c l k v a r) \<Rightarrow> Some v)"

definition rb_has :: "'k CompareFn \<Rightarrow> ('k, 'v, 'a) rbt \<Rightarrow> 'k \<Rightarrow> bool" where
  "rb_has cmp s key = (rb_get cmp s key \<noteq> None)"

definition rb_set :: "('k, 'v, 'a) hook \<Rightarrow> 'k CompareFn \<Rightarrow> ('k, 'v, 'a) rbt \<Rightarrow> 'k \<Rightarrow> 'v
    \<Rightarrow> error + ('k, 'v, 'a) rbt" where
  "rb_set upd cmp s key value = insertNode upd cmp s key value"

definition rb_delete :: "('k, 'v, 'a) hook \<Rightarrow> 'k CompareFn \<Rightarrow> ('k, 'v, 'a) rbt \<Rightarrow> 'k
    \<Rightarrow> error + (bool \<times> ('k, 'v, 'a) rbt)" where
  "rb_delete upd cmp s key =
     (case rb_find cmp key (rb_root s) of
        Some (fz, z) \<Rightarrow>
          (case deleteNode upd fz z of
             Inl e \<Rightarrow> Inl e
           | Inr t \<Rightarrow> Inr (True, \<lparr>rb_root = t, rb_size = rb_size s - 1\<rparr>))
      | None \<Rightarrow> Inr (False, s))"

subsection \<open>Traversals and the invariant checkers\<close>

fun weight :: "('k, 'v, 'a) tree \<Rightarrow> nat" where
  "weight Leaf = 0"
| "weight (Node c l k v a r) = Suc (weight l + weight r)"

fun pending :: "('k, 'v, 'a) tree \<Rightarrow> nat" where
  "pending Leaf = 0"
| "pending (Node c l k v a r) = Suc (2 * weight r)"

text \<open>The loop of \<open>entries\<close>, one step at a time: a node that is not the sentinel
  is pushed and its left child visited; at the sentinel the last pushed node is
  popped and yielded, and its right child visited. The sentinel is never pushed.\<close>

function entriesLoop :: "('k, 'v, 'a) tree \<Rightarrow> ('k, 'v, 'a) tree list \<Rightarrow> ('k \<times> 'v) list" where
  "entriesLoop Leaf [] = []"
| "entriesLoop Leaf (Node c l k v a r # stack) = (k, v) # entriesLoop r stack"
| "entriesLoop Leaf (Leaf # stack) = []"
| "entriesLoop (Node c l k v a r) stack = entriesLoop l (Node c l k v a r # stack)"
  by pat_completeness auto
termination
  by (relation "measure (\<lambda>(c, stack). 2 * weight c + sum_list (map pending stack))") auto

definition entries :: "('k, 'v, 'a) rbt \<Rightarrow> ('k \<times> 'v) list" where
  "entries s = (if rb_root s = Leaf then [] else entriesLoop (rb_root s) [])"

fun depths :: "('k, 'v, 'a) tree \<Rightarrow> nat \<times> nat" where
  "depths Leaf = (0, 0)"
| "depths (Node c l k v a r) =
     (case depths l of (long1, short1) \<Rightarrow>
        case depths r of (long2, short2) \<Rightarrow> (max long1 long2 + 1, min short1 short2 + 1))"

definition checkBalanceInvariant :: "('k, 'v, 'a) rbt \<Rightarrow> bool" where
  "checkBalanceInvariant s =
     (case depths (rb_root s) of (longestLength, shortestLength) \<Rightarrow>
        longestLength \<le> shortestLength * 2)"

definition noBound :: "('k \<Rightarrow> bool) \<Rightarrow> 'k option \<Rightarrow> bool" where
  "noBound truthy b = (case b of None \<Rightarrow> True | Some k \<Rightarrow> \<not> truthy k)"

fun traverse :: "('k \<Rightarrow> bool) \<Rightarrow> 'k CompareFn \<Rightarrow> ('k, 'v, 'a) tree \<Rightarrow> 'k option \<Rightarrow> 'k option
    \<Rightarrow> bool" where
  "traverse truthy cmp Leaf mn mx = True"
| "traverse truthy cmp (Node c l k v a r) mn mx =
     ((noBound truthy mn \<or> cmp k (the mn) = GT)
      \<and> (noBound truthy mx \<or> cmp k (the mx) = LT)
      \<and> (l = Leaf \<or> traverse truthy cmp l mn (Some k))
      \<and> (r = Leaf \<or> traverse truthy cmp r (Some k) mx))"

definition checkOrderInvariant :: "('k \<Rightarrow> bool) \<Rightarrow> 'k CompareFn \<Rightarrow> ('k, 'v, 'a) rbt \<Rightarrow> bool" where
  "checkOrderInvariant truthy cmp s = traverse truthy cmp (rb_root s) None None"

subsection \<open>The two classes\<close>

definition defaultCompareFunction :: "('k :: linorder) CompareFn" where
  "defaultCompareFunction a b = (if a = b then EQ else if a < b then LT else GT)"

definition noHook :: "('k, 'v, unit) hook" where
  "noHook l k r = ()"

type_synonym 'n Interval = "'n \<times> 'n"

definition jsmax :: "('n :: linorder) \<Rightarrow> 'n \<Rightarrow> 'n" where
  "jsmax a b = (if a > b then a else b)"

definition max3 :: "('n :: linorder) \<Rightarrow> 'n \<Rightarrow> 'n \<Rightarrow> 'n" where
  "max3 a b c = jsmax a (jsmax b c)"

fun updateNodeMax :: "('n :: linorder Interval, 'v, 'n) hook" where
  "updateNodeMax Leaf k Leaf = snd k"
| "updateNodeMax Leaf k (Node rc rl rk rv ra rr) = jsmax (snd k) ra"
| "updateNodeMax (Node lc ll lk lv la lr) k Leaf = jsmax (snd k) la"
| "updateNodeMax (Node lc ll lk lv la lr) k (Node rc rl rk rv ra rr) = max3 (snd k) la ra"

definition compareFn :: "('n :: linorder) Interval CompareFn" where
  "compareFn a b =
     (if fst a < fst b then LT
      else if fst a = fst b then
        (if snd a < snd b then LT else if snd a > snd b then GT else EQ)
      else GT)"

definition intervalsIntersect :: "('n :: linorder) Interval \<Rightarrow> 'n Interval \<Rightarrow> bool" where
  "intervalsIntersect a b = (fst a \<le> snd b \<and> snd a \<ge> fst b)"

text \<open>One iteration of the loop of \<open>search\<close> on the node popped from the stack:
  the nodes it pushes (last pushed first) and the values it yields.\<close>

fun searchStep :: "('n :: linorder) Interval \<Rightarrow> ('n Interval, 'v, 'n) tree
    \<Rightarrow> ('n Interval, 'v, 'n) tree list \<times> 'v list" where
  "searchStep query Leaf = ([], [])"
| "searchStep query (Node c l k v a r) =
     ((case r of
         Leaf \<Rightarrow> []
       | Node rc rl rk rv ra rr \<Rightarrow> if fst k \<le> snd query then [r] else [])
      @ (case l of
           Leaf \<Rightarrow> []
         | Node lc ll lk lv la lr \<Rightarrow> if la \<ge> fst query then [l] else []),
      if intervalsIntersect k query then [v] else [])"

lemma searchStep_pending:
  "sum_list (map (\<lambda>t. Suc (2 * weight t)) (fst (searchStep query node))) < Suc (2 * weight node)"
  by (cases node) (auto split: tree.splits)

function searchLoop :: "('n :: linorder) Interval \<Rightarrow> ('n Interval, 'v, 'n) tree list \<Rightarrow> 'v list" where
  "searchLoop query [] = []"
| "searchLoop query (node # stack) =
     snd (searchStep query node) @ searchLoop query (fst (searchStep query node) @ stack)"
  by pat_completeness auto
termination
  apply (relation "measure (\<lambda>(query, stack). sum_list (map (\<lambda>t. Suc (2 * weight t)) stack))")
   apply simp
  subgoal for query node stack
    using searchStep_pending [of query node] by simp
  done

definition search :: "(('n :: linorder) Interval, 'v, 'n) rbt \<Rightarrow> 'n Interval \<Rightarrow> 'v list" where
  "search s query = (if rb_root s = Leaf then [] else searchLoop query [rb_root s])"

subsection \<open>Sequences of operations\<close>

datatype ('k, 'v) operation = Set 'k 'v | Delete 'k

definition rb_new :: "('k, 'v, 'a) rbt" where
  "rb_new = \<lparr>rb_root = Leaf, rb_size = 0\<rparr>"

fun apply_op :: "('k, 'v, 'a) hook \<Rightarrow> 'k CompareFn \<Rightarrow> ('k, 'v, 'a) rbt \<Rightarrow> ('k, 'v) operation
    \<Rightarrow> error + ('k, 'v, 'a) rbt" where
  "apply_op upd cmp s (Set k v) = rb_set upd cmp s k v"
| "apply_op upd cmp s (Delete k) =
     (case rb_delete upd cmp s k of Inl e \<Rightarrow> Inl e | Inr (b, s') \<Rightarrow> Inr s')"

fun run :: "('k, 'v, 'a) hook \<Rightarrow> 'k CompareFn \<Rightarrow> ('k, 'v, 'a) rbt \<Rightarrow> ('k, 'v) operation list
    \<Rightarrow> error + ('k, 'v, 'a) rbt" where
  "run upd cmp s [] = Inr s"
| "run upd cmp s (op # ops) =
     (case apply_op upd cmp s op of Inl e \<Rightarrow> Inl e | Inr s' \<Rightarrow> run upd cmp s' ops)"

subsection \<open>What a tree holds\<close>

fun inorder :: "('k, 'v, 'a) tree \<Rightarrow> ('k \<times> 'v) list" where
  "inorder Leaf = []"
| "inorder (Node c l k v a r) = inorder l @ (k, v) # inorder r"

fun rest :: "('k, 'v, 'a) tree \<Rightarrow> ('k \<times> 'v) list" where
  "rest Leaf = []"
| "rest (Node c l k v a r) = (k, v) # inorder r"

text \<open>The order check in the words of its description: every key lies strictly
  between the bounds inherited from its ancestors, where there is such a bound.\<close>

fun keysWithin :: "'k CompareFn \<Rightarrow> ('k, 'v, 'a) tree \<Rightarrow> 'k option \<Rightarrow> 'k option \<Rightarrow> bool" where
  "keysWithin cmp Leaf lo hi = True"
| "keysWithin cmp (Node c l k v a r) lo hi =
     ((case lo of None \<Rightarrow> True | Some b \<Rightarrow> cmp k b = GT)
      \<and> (case hi of None \<Rightarrow> True | Some b \<Rightarrow> cmp k b = LT)
      \<and> keysWithin cmp l lo (Some k)
      \<and> keysWithin cmp r (Some k) hi)"

text \<open>Truthiness of a number key, as \<open>!min\<close> and \<open>!max\<close> test it: zero is falsy.
  An interval is an array, which is always truthy.\<close>

definition truthyNumber :: "int \<Rightarrow> bool" where
  "truthyNumber k = (k \<noteq> 0)"

definition truthyInterval :: "'n Interval \<Rightarrow> bool" where
  "truthyInterval k = True"

definition zeroRoot :: "(int, string, unit) rbt" where
  "zeroRoot = \<lparr>rb_root = Node Black (Node Red Leaf 5 ''five'' () Leaf) 0 ''zero'' () Leaf,
               rb_size = 2\<rparr>"

definition oneToFive :: "(int, int, unit) rbt" where
  "oneToFive =
     \<lparr>rb_root = Node Black (Node Black (Node Red Leaf 1 2 () Leaf) 2 3 () Leaf) 3 4 ()
                  (Node Black Leaf 4 5 () (Node Red Leaf 5 6 () Leaf)),
      rb_size = 5\<rparr>"

definition fooBar :: "(int Interval, string, int) rbt" where
  "fooBar =
     \<lparr>rb_root = Node Black Leaf (0, 10) ''foo'' 20 (Node Red Leaf (5, 20) ''bar'' 20 Leaf),
      rb_size = 2\<rparr>"

subsection \<open>The red-black invariants\<close>

fun bheight :: "('k, 'v, 'a) tree \<Rightarrow> nat" where
  "bheight Leaf = 0"
| "bheight (Node c l k v a r) = (if c = Black then Suc (bheight l) else bheight l)"

fun invh :: "('k, 'v, 'a) tree \<Rightarrow> bool" where
  "invh Leaf = True"
| "invh (Node c l k v a r) = (invh l \<and> invh r \<and> bheight l = bheight r)"

fun invc :: "('k, 'v, 'a) tree \<Rightarrow> bool" where
  "invc Leaf = True"
| "invc (Node c l k v a r) =
     (invc l \<and> invc r \<and> (c = Black \<or> (color_of l = Black \<and> color_of r = Black)))"

definition rbinv :: "('k, 'v, 'a) tree \<Rightarrow> bool" where
  "rbinv t = (invc t \<and> invh t \<and> color_of t = Black)"

text \<open>The path from a node up to the root, seen from a hole of black height \<open>h\<close>: what
  the nodes on it and their other subtrees have to satisfy for the whole tree to be a
  red-black tree once the hole is filled.\<close>

fun ctx_ok :: "('k, 'v, 'a) frame list \<Rightarrow> nat \<Rightarrow> bool" where
  "ctx_ok [] h = True"
| "ctx_ok (fr # fs) h =
     (invc (fsib fr) \<and> invh (fsib fr) \<and> bheight (fsib fr) = h
      \<and> (fcolor fr = Black
          \<or> (color_of (fsib fr) = Black \<and> fs \<noteq> [] \<and> fcolor (hd fs) = Black))
      \<and> ctx_ok fs (if fcolor fr = Black then Suc h else h))"

definition fits :: "('k, 'v, 'a) frame list \<Rightarrow> ('k, 'v, 'a) tree \<Rightarrow> bool" where
  "fits fs t = (case fs of [] \<Rightarrow> color_of t = Black
                | fr # fs' \<Rightarrow> fcolor fr = Black \<or> color_of t = Black)"

fun before :: "('k, 'v, 'a) frame list \<Rightarrow> ('k \<times> 'v) list" where
  "before [] = []"
| "before (fr # fs) =
     (if fdir fr = L then before fs else before fs @ inorder (fsib fr) @ [(fkey fr, fval fr)])"

fun after :: "('k, 'v, 'a) frame list \<Rightarrow> ('k \<times> 'v) list" where
  "after [] = []"
| "after (fr # fs) =
     (if fdir fr = L then (fkey fr, fval fr) # inorder (fsib fr) @ after fs else after fs)"

text \<open>What of a frame the colour and height invariants read, and what the in-order
  sequence reads; neither reads the annotation.\<close>

definition shape :: "('k, 'v, 'a) frame \<Rightarrow> color \<times> ('k, 'v, 'a) tree" where
  "shape fr = (fcolor fr, fsib fr)"

definition entry :: "('k, 'v, 'a) frame \<Rightarrow> dir \<times> 'k \<times> 'v \<times> ('k, 'v, 'a) tree" where
  "entry fr = (fdir fr, fkey fr, fval fr, fsib fr)"

subsection \<open>Comparators and the contents of a map\<close>

definition lawful :: "'k CompareFn \<Rightarrow> bool" where
  "lawful cmp =
     ((\<forall>a b. (cmp a b = GT) = (cmp b a = LT))
      \<and> (\<forall>a b c. cmp a b = LT \<and> cmp b c = LT \<longrightarrow> cmp a c = LT)
      \<and> (\<forall>a b c. cmp a b = LT \<and> cmp b c = EQ \<longrightarrow> cmp a c = LT))"

definition ascending :: "'k CompareFn \<Rightarrow> ('k \<times> 'v) list \<Rightarrow> bool" where
  "ascending cmp xs = sorted_wrt (\<lambda>x y. cmp (fst x) (fst y) = LT) xs"

fun alist_set :: "'k CompareFn \<Rightarrow> 'k \<Rightarrow> 'v \<Rightarrow> ('k \<times> 'v) list \<Rightarrow> ('k \<times> 'v) list" where
  "alist_set cmp key value [] = [(key, value)]"
| "alist_set cmp key value ((k, v) # xs) =
     (case cmp key k of
        EQ \<Rightarrow> (k, value) # xs
      | LT \<Rightarrow> (key, value) # (k, v) # xs
      | GT \<Rightarrow> (k, v) # alist_set cmp key value xs)"

fun alist_delete :: "'k CompareFn \<Rightarrow> 'k \<Rightarrow> ('k \<times> 'v) list \<Rightarrow> ('k \<times> 'v) list" where
  "alist_delete cmp key [] = []"
| "alist_delete cmp key ((k, v) # xs) =
     (case cmp key k of
        EQ \<Rightarrow> xs
      | LT \<Rightarrow> (k, v) # xs
      | GT \<Rightarrow> (k, v) # alist_delete cmp key xs)"

fun contents :: "'k CompareFn \<Rightarrow> ('k \<times> 'v) list \<Rightarrow> ('k, 'v) operation list \<Rightarrow> ('k \<times> 'v) list" where
  "contents cmp xs [] = xs"
| "contents cmp xs (Set k v # ops) = contents cmp (alist_set cmp k v xs) ops"
| "contents cmp xs (Delete k # ops) = contents cmp (alist_delete cmp k xs) ops"

text \<open>What a subtree holds after \<open>set\<close> found it at the end of its descent, and after
  \<open>delete\<close> removed its root.\<close>

fun inserted :: "'k \<Rightarrow> 'v \<Rightarrow> ('k, 'v, 'a) tree \<Rightarrow> ('k \<times> 'v) list" where
  "inserted key value Leaf = [(key, value)]"
| "inserted key value (Node c l k v a r) = inorder l @ (k, value) # inorder r"

fun removed :: "('k, 'v, 'a) tree \<Rightarrow> ('k \<times> 'v) list" where
  "removed Leaf = []"
| "removed (Node c l k v a r) = inorder l @ inorder r"

text \<open>A state of a map as the operations leave it, whatever the comparator: a red-black
  tree with its number of nodes in \<open>_size\<close>; and with a lawful comparator: its keys
  ascend as well.\<close>

definition shaped :: "('k, 'v, 'a) rbt \<Rightarrow> bool" where
  "shaped s = (rbinv (rb_root s) \<and> rb_size s = int (length (inorder (rb_root s))))"

definition well_formed :: "'k CompareFn \<Rightarrow> ('k, 'v, 'a) rbt \<Rightarrow> bool" where
  "well_formed cmp s =
     (rbinv (rb_root s) \<and> ascending cmp (inorder (rb_root s))
      \<and> rb_size s = int (length (inorder (rb_root s))))"

subsection \<open>The default comparator on JavaScript numbers\<close>

text \<open>\<open>defaultCompareFunction\<close> compares with \<open>===\<close> and \<open><\<close>. On numbers both are false
  as soon as one side is \<open>NaN\<close>, so \<open>NaN\<close> compares \<open>GT\<close> with every number and every
  number compares \<open>GT\<close> with it. \<open>NaN\<close> and 0 are the falsy numbers.\<close>

datatype jsnumber = NaN | Num int

fun strictEquals :: "jsnumber \<Rightarrow> jsnumber \<Rightarrow> bool" where
  "strictEquals (Num a) (Num b) = (a = b)"
| "strictEquals a b = False"

fun lessThan :: "jsnumber \<Rightarrow> jsnumber \<Rightarrow> bool" where
  "lessThan (Num a) (Num b) = (a < b)"
| "lessThan a b = False"

definition numberCompare :: "jsnumber CompareFn" where
  "numberCompare a b = (if strictEquals a b then EQ else if lessThan a b then LT else GT)"

definition truthyJsNumber :: "jsnumber \<Rightarrow> bool" where
  "truthyJsNumber k = (k \<noteq> NaN \<and> k \<noteq> Num 0)"

subsection \<open>Some maps\<close>

definition oneThreeFiveSix :: "(int, int, unit) rbt" where
  "oneThreeFiveSix =
     \<lparr>rb_root = Node Black (Node Black Leaf 1 2 () Leaf) 3 4 ()
                  (Node Black Leaf 5 0 () (Node Red Leaf 6 7 () Leaf)),
      rb_size = 4\<rparr>"

definition barBaz :: "(int Interval, string, int) rbt" where
  "barBaz =
     \<lparr>rb_root = Node Black Leaf (5, 20) ''bar'' 20 (Node Red Leaf (7, 8) ''baz'' 8 Leaf),
      rb_size = 2\<rparr>"

definition oneNaN :: "(jsnumber, unit, unit) rbt" where
  "oneNaN = \<lparr>rb_root = Node Black Leaf (Num 1) () () (Node Red Leaf NaN () () Leaf),
             rb_size = 2\<rparr>"

definition withNaN :: "(jsnumber, unit, unit) rbt" where
  "withNaN =
     \<lparr>rb_root =
        Node Black
         (Node Red (Node Black Leaf (Num 1) () () Leaf) NaN () ()
           (Node Black Leaf (Num 5) () () Leaf))
         (Num 6) () ()
         (Node Red (Node Black Leaf (Num 7) () () Leaf) (Num 8) () ()
           (Node Black Leaf (Num 9) () () (Node Red Leaf (Num 10) () () Leaf))),
      rb_size = 8\<rparr>"

section \<open>Properties of the trie\<close>

subsection \<open>\<open>popCount\<close> counts the set bits\<close>

lemma and_concat:
  fixes a m x y :: nat
  assumes "a < 2 ^ b" "m < 2 ^ b"
  shows "(a + 2 ^ b * x) AND (m + 2 ^ b * y) = (a AND m) + 2 ^ b * (x AND y)"
proof -
  let ?X = "a + 2 ^ b * x" and ?Y = "m + 2 ^ b * y"
  have tx: "take_bit b ?X = a" and ty: "take_bit b ?Y = m"
    using assms by (simp_all add: take_bit_eq_mod)
  have dx: "drop_bit b ?X = x" and dy: "drop_bit b ?Y = y"
    using assms by (simp_all add: drop_bit_eq_div)
  have "?X AND ?Y = take_bit b (?X AND ?Y) + 2 ^ b * drop_bit b (?X AND ?Y)"
    by (simp add: take_bit_eq_mod drop_bit_eq_div)
  also have "\<dots> = (a AND m) + 2 ^ b * (x AND y)"
    by (simp only: take_bit_and drop_bit_and tx ty dx dy)
  finally show ?thesis .
qed

lemma and_low:
  fixes a a' :: nat
  assumes "a < 2 ^ b" "a' < 2 ^ b"
  shows "(a + 2 ^ b * x) AND a' = a AND a'"
  using and_concat [of a b a' x 0] assms by simp

lemma bc_0 [simp]: "bc 0 = 0" by (simp add: bc.simps)

lemma bc_rec: "bc n = n mod 2 + bc (n div 2)"
  by (cases "n = 0") (simp_all add: bc.simps [of n])

lemma bc_split: "bc n = bc (n mod 2 ^ b) + bc (n div 2 ^ b)"
proof (induction b arbitrary: n)
  case 0 then show ?case by simp
next
  case (Suc b)
  have "bc n = n mod 2 + bc (n div 2)" by (rule bc_rec)
  also have "bc (n div 2) = bc (n div 2 mod 2 ^ b) + bc (n div 2 div 2 ^ b)"
    by (rule Suc.IH)
  also have "n div 2 div 2 ^ b = n div 2 ^ Suc b"
    by (simp add: div_mult2_eq)
  finally have 1: "bc n = n mod 2 + bc (n div 2 mod 2 ^ b) + bc (n div 2 ^ Suc b)" by simp
  have "bc (n mod 2 ^ Suc b) = (n mod 2 ^ Suc b) mod 2 + bc ((n mod 2 ^ Suc b) div 2)"
    by (rule bc_rec)
  moreover have "(n mod 2 ^ Suc b) mod 2 = n mod 2"
    by (simp add: mod_mod_cancel)
  moreover have "(n mod 2 ^ Suc b) div 2 = n div 2 mod 2 ^ b"
    by (simp add: mod_mult2_eq)
  ultimately show ?case using 1 by simp
qed

lemma bc_lt4: "d < 4 \<Longrightarrow> bc d = d - d div 2"
proof -
  assume "d < 4"
  then consider "d = 0" | "d = 1" | "d = 2" | "d = 3" by linarith
  then show ?thesis
    by cases (simp_all add: bc.simps [of "Suc 0"] bc.simps [of 2] bc.simps [of 3])
qed

lemma bc_le: "d < 2 ^ b \<Longrightarrow> bc d \<le> b"
proof (induction b arbitrary: d)
  case 0 then show ?case by simp
next
  case (Suc b)
  have "d div 2 < 2 ^ b" using Suc.prems by auto
  then have "bc (d div 2) \<le> b" by (rule Suc.IH)
  moreover have "d mod 2 \<le> 1" by simp
  ultimately show ?case using bc_rec [of d] by linarith
qed

lemma and_1_nat: "(x::nat) AND 1 = x mod 2"
  by (simp add: and_one_eq)

lemma and_3_nat: "(x::nat) AND 3 = x mod 4"
  using take_bit_eq_mask [of 2 x] by (simp add: take_bit_eq_mod mask_eq_exp_minus_1)

lemma and_15_nat: "(x::nat) AND 15 = x mod 16"
  using take_bit_eq_mask [of 4 x] by (simp add: take_bit_eq_mod mask_eq_exp_minus_1)

lemma and_le_nat: "(a::nat) AND b \<le> a"
proof -
  have "int (a AND b) \<le> int a"
    by (simp add: of_nat_and_eq)
  then show ?thesis by simp
qed

lemma and_concat4:
  fixes a m x y :: nat
  shows "a < 4 \<Longrightarrow> m < 4 \<Longrightarrow> (a + 4 * x) AND (m + 4 * y) = (a AND m) + 4 * (x AND y)"
  using and_concat [of a 2 m x y] by simp

lemma and_concat16:
  fixes a m x y :: nat
  shows "a < 16 \<Longrightarrow> m < 16 \<Longrightarrow> (a + 16 * x) AND (m + 16 * y) = (a AND m) + 16 * (x AND y)"
  using and_concat [of a 4 m x y] by simp

lemma and_concat256:
  fixes a m x y :: nat
  shows "a < 256 \<Longrightarrow> m < 256 \<Longrightarrow> (a + 256 * x) AND (m + 256 * y) = (a AND m) + 256 * (x AND y)"
  using and_concat [of a 8 m x y] by simp

lemma P1: "n < 4 ^ k \<Longrightarrow> n - ((n div 2) AND M1 k) = D4 k n"
proof (induction k arbitrary: n)
  case 0 then show ?case by simp
next
  case (Suc k)
  define d n' where "d = n mod 4" and "n' = n div 4"
  have n: "n = d + 4 * n'" and d: "d < 4" by (simp_all add: d_def n'_def)
  have n': "n' < 4 ^ k" using Suc.prems by (simp add: n'_def less_mult_imp_div_less mult.commute)
  define A where "A = (n' div 2) AND M1 k"
  have A: "A \<le> n'" 
    by (metis A_def and_le_nat div_le_dividend order_trans)
  define e where "e = d div 2 + 2 * (n' mod 2)"
  have e: "e < 4" using d unfolding e_def by linarith
  have "n div 2 = e + 4 * (n' div 2)"
  proof -
    have "(d + 4 * n') div 2 = d div 2 + 2 * n'" by simp
    moreover have "n' = n' mod 2 + 2 * (n' div 2)" by simp
    ultimately show ?thesis unfolding n e_def by linarith
  qed
  then have "(n div 2) AND M1 (Suc k) = (e AND 1) + 4 * A"
    using and_concat4 [of e 1 "n' div 2" "M1 k"] e by (simp add: A_def)
  also have "e AND 1 = d div 2"
    using d by (simp add: e_def and_1_nat)
  finally have "n - ((n div 2) AND M1 (Suc k)) = (d - d div 2) + 4 * (n' - A)"
    using n A by simp
  also have "n' - A = D4 k n'" unfolding A_def using n' by (rule Suc.IH)
  finally show ?case using d by (simp add: bc_lt4 d_def n'_def)
qed

lemma P2: "s2 k (D4 (2 * k) n) = D16 k n"
proof (induction k arbitrary: n)
  case 0 then show ?case by (simp add: s2_def)
next
  case (Suc k)
  define a0 a1 X' where "a0 = bc (n mod 4)" and "a1 = bc (n div 4 mod 4)"
    and "X' = D4 (2 * k) (n div 16)"
  have a0: "a0 \<le> 2" unfolding a0_def by (rule bc_le) simp
  have a1: "a1 \<le> 2" unfolding a1_def by (rule bc_le) simp
  have X: "D4 (2 * Suc k) n = (a0 + 4 * a1) + 16 * X'"
  proof -
    have "n div 4 div 4 = n div 16" by (simp add: div_mult2_eq [symmetric])
    then show ?thesis by (simp add: a0_def a1_def X'_def)
  qed
  have c1: "((a0 + 4 * a1) + 16 * X') AND (3 + 16 * M2 k)
        = ((a0 + 4 * a1) AND 3) + 16 * (X' AND M2 k)"
    using a0 a1 by (intro and_concat16) simp_all
  have c2: "(a0 + 4 * a1) AND 3 = a0" using a0 by (simp add: and_3_nat)
  have 1: "D4 (2 * Suc k) n AND M2 (Suc k) = a0 + 16 * (X' AND M2 k)"
    unfolding X M2.simps c1 c2 ..
  define e where "e = a1 + 4 * (X' mod 4)"
  have e: "e < 16" using a1 unfolding e_def by linarith
  have c3: "D4 (2 * Suc k) n div 4 = e + 16 * (X' div 4)"
  proof -
    have "(a0 + 4 * a1 + 16 * X') div 4 = a1 + 4 * X'" using a0 by simp
    moreover have "X' = X' mod 4 + 4 * (X' div 4)" by simp
    ultimately show ?thesis unfolding X e_def by linarith
  qed
  have c4: "(e + 16 * (X' div 4)) AND (3 + 16 * M2 k)
        = (e AND 3) + 16 * ((X' div 4) AND M2 k)"
    using e by (intro and_concat16) simp_all
  have c5: "e AND 3 = a1" using a1 unfolding e_def by (simp add: and_3_nat)
  have 2: "(D4 (2 * Suc k) n div 4) AND M2 (Suc k) = a1 + 16 * ((X' div 4) AND M2 k)"
    unfolding c3 M2.simps c4 c5 ..
  have "s2 (Suc k) (D4 (2 * Suc k) n) = a0 + a1 + 16 * s2 k X'"
    unfolding s2_def 1 2 by simp
  also have "s2 k X' = D16 k (n div 16)" unfolding X'_def by (rule Suc.IH)
  also have "a0 + a1 = bc (n mod 16)"
  proof -
    have "n mod 16 div 4 = n div 4 mod 4" using mod_mult2_eq [of n 4 4] by simp
    moreover have "n mod 16 mod 4 = n mod 4" by (simp add: mod_mod_cancel)
    ultimately show ?thesis
      using bc_split [of "n mod 16" 2] by (simp add: a0_def a1_def)
  qed
  finally show ?case by simp
qed

lemma D16_mod16: "D16 j m mod 16 \<le> 4"
proof (cases j)
  case 0 then show ?thesis by simp
next
  case (Suc j')
  have "bc (m mod 16) \<le> 4" by (rule bc_le) simp
  then show ?thesis using Suc by simp
qed

lemma P3: "s3 k (D16 (2 * k) n) = D256 k n"
proof (induction k arbitrary: n)
  case 0 then show ?case by (simp add: s3_def)
next
  case (Suc k)
  define c0 c1 X' where "c0 = bc (n mod 16)" and "c1 = bc (n div 16 mod 16)"
    and "X' = D16 (2 * k) (n div 256)"
  have c0: "c0 \<le> 4" unfolding c0_def by (rule bc_le) simp
  have c1: "c1 \<le> 4" unfolding c1_def by (rule bc_le) simp
  define xm where "xm = X' mod 16"
  have X'4: "xm \<le> 4" unfolding X'_def xm_def by (rule D16_mod16)
  have X: "D16 (2 * Suc k) n = (c0 + 16 * c1) + 256 * X'"
  proof -
    have "n div 16 div 16 = n div 256" by (simp add: div_mult2_eq [symmetric])
    then show ?thesis by (simp add: c0_def c1_def X'_def)
  qed
  define L where "L = (c0 + c1) + 16 * (c1 + xm)"
  have L: "L < 256" using c0 c1 X'4 unfolding L_def by simp
  have sum: "D16 (2 * Suc k) n + D16 (2 * Suc k) n div 16 = L + 256 * (X' + X' div 16)"
  proof -
    have "(c0 + 16 * c1 + 256 * X') div 16 = c1 + 16 * X'" using c0 by simp
    moreover have "X' = xm + 16 * (X' div 16)" by (simp add: xm_def)
    ultimately show ?thesis unfolding X L_def by simp
  qed
  have c4: "(L + 256 * (X' + X' div 16)) AND (15 + 256 * M3 k)
        = (L AND 15) + 256 * ((X' + X' div 16) AND M3 k)"
    using L by (intro and_concat256) simp_all
  have c5: "L AND 15 = c0 + c1"
  proof -
    have "L = (c0 + c1) + 16 * (c1 + xm)" by (rule L_def)
    then have "L mod 16 = (c0 + c1) mod 16" by (simp only: mod_mult_self2)
    then show ?thesis using c0 c1 by (simp add: and_15_nat)
  qed
  have "s3 (Suc k) (D16 (2 * Suc k) n) = c0 + c1 + 256 * s3 k X'"
    unfolding s3_def sum M3.simps c4 c5 ..
  also have "s3 k X' = D256 k (n div 256)" unfolding X'_def by (rule Suc.IH)
  also have "c0 + c1 = bc (n mod 256)"
  proof -
    have "n mod 256 div 16 = n div 16 mod 16" using mod_mult2_eq [of n 16 16] by simp
    moreover have "n mod 256 mod 16 = n mod 16" by (simp add: mod_mod_cancel)
    ultimately show ?thesis
      using bc_split [of "n mod 256" 4] by (simp add: c0_def c1_def)
  qed
  finally show ?case by simp
qed

lemma D256_4: "D256 4 n = bc (n mod 256) + 256 * (bc (n div 256 mod 256) + 256 * (bc (n div 256 div 256 mod 256) + 256 * bc (n div 256 div 256 div 256 mod 256)))"
proof -
  have four: "(4::nat) = Suc (Suc (Suc (Suc 0)))" by simp
  show ?thesis by (subst four) (simp only: D256.simps mult_0_right add_0_right)
qed

lemma P4_arith:
  fixes e0 e1 e2 e3 :: nat
  assumes b: "e0 \<le> 8" "e1 \<le> 8" "e2 \<le> 8" "e3 \<le> 8"
  shows "(((e0 + 256 * (e1 + 256 * (e2 + 256 * e3))) * 0x1010101) mod 2 ^ 32) div 2 ^ 24 = e0 + e1 + e2 + e3"
proof -
  define A B C where "A = e0 + 256 * (e0 + e1) + 65536 * (e0 + e1 + e2)"
    and "B = e0 + e1 + e2 + e3" and "C = (e1 + e2 + e3) + 256 * (e2 + e3) + 65536 * e3"
  have 0: "(e0 + 256 * (e1 + 256 * (e2 + 256 * e3))) * 0x1010101 = (A + 16777216 * B) + 4294967296 * C"
    unfolding A_def B_def C_def by simp
  have 1: "A + 16777216 * B < 4294967296" using b unfolding A_def B_def by simp
  have 2: "((A + 16777216 * B) + 4294967296 * C) mod 4294967296 = A + 16777216 * B"
    using 1 by simp
  have 3: "A < 16777216" using b unfolding A_def by simp
  have 4: "(A + 16777216 * B) div 16777216 = B" using 3 by simp
  show ?thesis unfolding 0 using 2 4 by (simp add: B_def)
qed

lemma P4:
  assumes "n < 2 ^ 32"
  shows "((D256 4 n * 0x1010101) mod 2 ^ 32) div 2 ^ 24 = bc n"
proof -
  define e0 e1 e2 e3 where "e0 = bc (n mod 256)" and "e1 = bc (n div 256 mod 256)"
    and "e2 = bc (n div 256 div 256 mod 256)" and "e3 = bc (n div 256 div 256 div 256 mod 256)"
  have b: "e0 \<le> 8" "e1 \<le> 8" "e2 \<le> 8" "e3 \<le> 8"
    unfolding e0_def e1_def e2_def e3_def by (rule bc_le, simp)+
  have D: "D256 4 n = e0 + 256 * (e1 + 256 * (e2 + 256 * e3))"
    unfolding D256_4 e0_def e1_def e2_def e3_def ..
  have z: "n div 256 div 256 div 256 div 256 = 0"
    using assms by (simp add: div_mult2_eq [symmetric])
  have "bc n = e0 + bc (n div 256)" using bc_split [of n 8] by (simp add: e0_def)
  also have "bc (n div 256) = e1 + bc (n div 256 div 256)"
    using bc_split [of "n div 256" 8] by (simp add: e1_def)
  also have "bc (n div 256 div 256) = e2 + bc (n div 256 div 256 div 256)"
    using bc_split [of "n div 256 div 256" 8] by (simp add: e2_def)
  also have "bc (n div 256 div 256 div 256) = e3"
    using bc_split [of "n div 256 div 256 div 256" 8] z by (simp add: e3_def)
  finally have "bc n = e0 + e1 + e2 + e3" by simp
  then show ?thesis unfolding D using P4_arith [OF b] by simp
qed

lemma bit_word_lt:
  fixes m :: "32 word"
  assumes "uint m < 2 ^ j" "bit m i"
  shows "i < j"
proof -
  have "take_bit j (uint m) = uint m" using assms(1) by (simp add: take_bit_int_eq_self)
  moreover have "i < LENGTH(32)" using assms(2) by (rule bit_imp_le_length)
  then have "bit (uint m) i" using assms(2) by (simp add: bit_uint_iff)
  ultimately have "bit (take_bit j (uint m)) i" by simp
  then show ?thesis by (simp add: bit_take_bit_iff)
qed

lemma sint_small:
  fixes y :: "32 word"
  assumes "uint y < 2 ^ 31"
  shows "sint y = int (unat y)"
proof -
  have "- (2 ^ 31) \<le> uint y" by (rule order_trans [of _ 0]) simp_all
  then have "signed_take_bit 31 (uint y) = uint y"
    using assms by (intro signed_take_bit_int_eq_self) simp_all
  then show ?thesis by (simp add: sint_uint)
qed

lemma sint_sdb_and:
  fixes x m :: "32 word"
  assumes "uint m < 2 ^ (32 - k)" and m31: "uint m < 2 ^ 31"
  shows "sint (signed_drop_bit k x AND m) = int ((unat x div 2 ^ k) AND unat m)"
proof -
  have 1: "signed_drop_bit k x AND m = drop_bit k x AND m"
  proof (rule bit_word_eqI)
    fix i assume "i < LENGTH(32)"
    show "bit (signed_drop_bit k x AND m) i = bit (drop_bit k x AND m) i"
    proof (cases "bit m i")
      case True
      then have "i < 32 - k" using assms(1) bit_word_lt by blast
      then have "\<not> 32 - k \<le> i" by simp
      then show ?thesis by (simp add: bit_and_iff bit_signed_drop_bit_iff bit_drop_bit_eq)
    next
      case False then show ?thesis by (simp add: bit_and_iff)
    qed
  qed
  have "drop_bit k x AND m \<le> m" by (rule word_and_le1)
  then have "uint (drop_bit k x AND m) \<le> uint m" by (simp add: word_le_def)
  then have "uint (drop_bit k x AND m) < 2 ^ 31" using m31 by simp
  then have "sint (drop_bit k x AND m) = int (unat (drop_bit k x AND m))" by (rule sint_small)
  moreover have "unat (drop_bit k x AND m) = (unat x div 2 ^ k) AND unat m"
  proof -
    have "unat (drop_bit k x AND m) = drop_bit k (unat x) AND unat m"
      by (simp only: unsigned_and_eq unat_drop_bit_eq)
    then show ?thesis by (simp only: drop_bit_eq_div)
  qed
  ultimately show ?thesis
    by (simp only: 1)
qed

lemma M_numeral:
  "M1 (numeral k) = 1 + 4 * M1 (pred_numeral k)"
  "M2 (numeral k) = 3 + 16 * M2 (pred_numeral k)"
  "M3 (numeral k) = 15 + 256 * M3 (pred_numeral k)"
  by (simp_all add: numeral_eq_Suc)

lemma masks: "M1 16 = 0x55555555" "M2 8 = 0x33333333" "M3 4 = 0xF0F0F0F"
  by (simp_all add: M_numeral)

lemma D16_bound: "15 * D16 k n + 4 \<le> 4 * 16 ^ k"
proof (induction k arbitrary: n)
  case 0 then show ?case by simp
next
  case (Suc k)
  have "bc (n mod 16) \<le> 4" by (rule bc_le) simp
  then show ?case using Suc.IH [of "n div 16"] by simp
qed

lemma pcn_steps:
  assumes "n < 2 ^ 32"
  shows "n - ((n div 2) AND 0x55555555) = D4 16 n"
    and "(D4 16 n AND 0x33333333) + ((D4 16 n div 4) AND 0x33333333) = D16 8 n"
    and "(D16 8 n + D16 8 n div 16) AND 0xF0F0F0F = D256 4 n"
proof -
  have "n < 4 ^ 16" using assms by simp
  then show "n - ((n div 2) AND 0x55555555) = D4 16 n"
    using P1 [of n 16] by (simp only: masks)
  have "D4 (2 * 8) n = D4 16 n" by simp
  then show "(D4 16 n AND 0x33333333) + ((D4 16 n div 4) AND 0x33333333) = D16 8 n"
    using P2 [of 8 n] by (simp only: s2_def masks)
  have "D16 (2 * 4) n = D16 8 n" by simp
  then show "(D16 8 n + D16 8 n div 16) AND 0xF0F0F0F = D256 4 n"
    using P3 [of 4 n] by (simp only: s3_def masks)
qed

lemma pcn_bc: assumes "n < 2 ^ 32" shows "pcn n = bc n"
  unfolding pcn_def Let_def pcn_steps [OF assms] using assms by (rule P4)

lemma unat_toInt32: "a < 2 ^ 32 \<Longrightarrow> unat (toInt32 (int a)) = a"
  by (simp add: toInt32_def unat_of_nat)

lemma sint_and_mask:
  fixes x m :: "32 word"
  assumes "uint m < 2 ^ 31"
  shows "sint (x AND m) = int (unat x AND unat m)"
  using sint_sdb_and [of m 0 x] assms by simp

lemma popCount_uint:
  fixes w :: "32 word"
  shows "popCount (uint w) = int (bc (unat w))"
proof -
  define n where "n = unat w"
  have n: "n < 2 ^ 32" unfolding n_def using unsigned_less [of w] by simp
  define n1 n2 n3 where "n1 = D4 16 n" and "n2 = D16 8 n" and "n3 = D256 4 n"
  note st = pcn_steps [OF n, folded n1_def n2_def n3_def]
  have n1n: "n1 \<le> n" using st(1) by simp
  have n1: "n1 < 2 ^ 32" using n1n n by simp
  have n2: "n2 < 2 ^ 31" using D16_bound [of 8 n] unfolding n2_def by simp
  have uw: "uint w = int n" by (simp add: n_def)
  have tw: "toInt32 (int n) = w" by (simp add: toInt32_def n_def)
  have s1: "uint w - sint (signed_drop_bit 1 (toInt32 (uint w)) AND 0x55555555) = int n1"
  proof -
    have "sint (signed_drop_bit 1 w AND 0x55555555) = int ((unat w div 2 ^ 1) AND unat (0x55555555 :: 32 word))"
      by (rule sint_sdb_and) simp_all
    then have "sint (signed_drop_bit 1 w AND 0x55555555) = int ((n div 2) AND 0x55555555)"
      by (simp add: n_def)
    moreover have "(n div 2) AND 0x55555555 \<le> n"
      by (meson and_le_nat div_le_dividend order_trans)
    ultimately show ?thesis using st(1) unfolding uw tw by simp
  qed
  have u1: "unat (toInt32 (int n1)) = n1" using n1 by (rule unat_toInt32)
  have s2: "sint (toInt32 (int n1) AND 0x33333333)
               + sint (signed_drop_bit 2 (toInt32 (int n1)) AND 0x33333333) = int n2"
  proof -
    have "sint (toInt32 (int n1) AND 0x33333333) = int (unat (toInt32 (int n1)) AND unat (0x33333333 :: 32 word))"
      by (rule sint_and_mask) simp
    moreover have "sint (signed_drop_bit 2 (toInt32 (int n1)) AND 0x33333333)
        = int ((unat (toInt32 (int n1)) div 2 ^ 2) AND unat (0x33333333 :: 32 word))"
      by (rule sint_sdb_and) simp_all
    ultimately show ?thesis using st(2) unfolding u1 by simp
  qed
  have u2: "unat (toInt32 (int n2)) = n2" using n2 by (intro unat_toInt32) simp
  have sn2: "sint (toInt32 (int n2)) = int n2"
  proof -
    have "uint (toInt32 (int n2)) = int n2" using u2 by (metis uint_nat)
    then have "uint (toInt32 (int n2)) < 2 ^ 31" using n2 by simp
    then show ?thesis using u2 by (simp add: sint_small)
  qed
  have s3a: "int n2 + sint (signed_drop_bit 4 (toInt32 (int n2))) = int (n2 + n2 div 16)"
    by (simp add: sint_signed_drop_bit_eq sn2 drop_bit_eq_div zdiv_int)
  have n23: "n2 + n2 div 16 < 2 ^ 32" using n2 by simp
  have u3: "unat (toInt32 (int (n2 + n2 div 16))) = n2 + n2 div 16"
    using n23 by (rule unat_toInt32)
  have s3: "sint (toInt32 (int n2 + sint (signed_drop_bit 4 (toInt32 (int n2)))) AND 0xF0F0F0F) = int n3"
  proof -
    have "sint (toInt32 (int (n2 + n2 div 16)) AND 0xF0F0F0F)
       = int (unat (toInt32 (int (n2 + n2 div 16))) AND unat (0xF0F0F0F :: 32 word))"
      by (rule sint_and_mask) simp
    then show ?thesis using st(3) unfolding s3a u3 by simp
  qed
  define P where "P = (n3 * 0x1010101) mod 2 ^ 32"
  have Pd: "P div 2 ^ 24 = bc n" unfolding P_def n3_def using n by (rule P4)
  have "bc n \<le> 32" using n by (rule bc_le)
  then have P31: "P < 2 ^ 31" using Pd by simp
  have uP: "unat (toInt32 (int n3 * 0x1010101)) = P"
  proof -
    have "int n3 * 0x1010101 = int (n3 * 0x1010101)" by simp
    then show ?thesis unfolding P_def by (simp only: toInt32_def of_int_of_nat_eq unat_of_nat) simp
  qed
  have sP: "sint (toInt32 (int n3 * 0x1010101)) = int P"
  proof -
    have "uint (toInt32 (int n3 * 0x1010101)) = int P" using uP by (metis uint_nat)
    then have "uint (toInt32 (int n3 * 0x1010101)) < 2 ^ 31" using P31 by simp
    then show ?thesis using uP by (simp add: sint_small)
  qed
  have s4: "sint (signed_drop_bit 24 (toInt32 (int n3 * 0x1010101))) = int (bc n)"
    unfolding sint_signed_drop_bit_eq sP using Pd by (simp add: drop_bit_eq_div zdiv_int)
  show ?thesis
    unfolding popCount_def Let_def s1 s2 s3 s4 n_def ..
qed

lemma bc_filter: "n < 2 ^ k \<Longrightarrow> bc n = length (filter (bit n) [0..<k])"
proof (induction k arbitrary: n)
  case 0 then show ?case by simp
next
  case (Suc k)
  have "n div 2 < 2 ^ k" using Suc.prems by auto
  then have IH: "bc (n div 2) = length (filter (bit (n div 2)) [0..<k])" by (rule Suc.IH)
  have "[0..<Suc k] = 0 # map Suc [0..<k]" by (simp add: upt_conv_Cons map_Suc_upt del: upt_Suc)
  then have "length (filter (bit n) [0..<Suc k])
      = (if bit n 0 then 1 else 0) + length (filter (bit n \<circ> Suc) [0..<k])"
    by (simp add: filter_map del: upt_Suc)
  moreover have "bit n \<circ> Suc = bit (n div 2)" by (auto simp: bit_Suc fun_eq_iff)
  moreover have "(if bit n 0 then 1 else 0) = n mod 2" by (simp add: bit_0 mod_2_eq_odd)
  ultimately show ?case using IH bc_rec [of n] by simp
qed

subsection \<open>The empty node\<close>

lemma popCount_0: "popCount 0 = 0"
  by (simp add: popCount_def toInt32_def)

lemma childIndexOf_0: "childIndexOf 0 b = 0"
  by (simp add: childIndexOf_def ushr_def popCount_0)

lemma checkBit_0: "\<not> checkBit 0 b"
  by (simp add: checkBit_def)

lemma copyInsert_Nil: "copyInsert e 0 [] = [e]"
  by (simp add: copyInsert_def)

lemma f_emptyNode:
  "f key value hash stage emptyNode =
     Inr (HNode (setBit 0 (getNthPrefix hash stage)) [key] [Some value] [None], True)"
  by (simp add: emptyNode_def childIndexOf_0 checkBit_0 copyInsert_Nil)

lemma unat_and_31: "unat (w AND 31) < 32" for w :: "32 word"
proof -
  have "unat (w AND 31) \<le> unat (31 :: 32 word)"
    by (rule word_and_le1 [THEN word_le_nat_alt [THEN iffD1]])
  then show ?thesis by simp
qed

lemma getNthPrefix_Some:
  "stage \<le> 5 \<Longrightarrow> \<exists>p < 32. getNthPrefix h stage = Some p"
  by (simp add: getNthPrefix_def unat_and_31)

subsection \<open>Hash collisions through all six stages\<close>

lemma six_reached:
  "hamt_setAll hamt_new
     [(AaAaAa, 1), (BBAaAa, 2), (AaBBAa, 3), (BBBBAa, 4), (AaAaBB, 5), (BBAaBB, 6)]
   = Inr six"
  by code_simp

text \<open>
  C2, at the failing input. \<open>v0\<close> is the trie \<open>six\<close>, reached by six \<open>set\<close>
  calls; the key \<open>"AaBBBB"\<close> has the hash of the six keys stored in it.
  \<open>v1 = v0.set("AaBBBB", 7)\<close> returns normally and counts the key as new, but
  \<open>v1.get("AaBBBB")\<close> throws a TypeError (it reads \<open>mask\<close> of \<open>undefined\<close>)
  instead of returning 7; before the call \<open>v0.get("AaBBBB")\<close> returned the absent
  result.
\<close>

theorem set_then_get_throws_on_full_collision:
  "hamt_set six AaBBBB 7 = Inr seven
   \<and> hamt_size seven = 7
   \<and> hamt_get seven AaBBBB = Inl TypeError
   \<and> hamt_get six AaBBBB = Inr None"
  by code_simp

text \<open>
  C6, at the failing input. The descent of \<open>set("AaBBBB", 7)\<close> on \<open>six\<close> calls
  the closure with the stage counter 6: the node it builds there is the seventh level of
  \<open>seven\<close>. At that stage \<open>getNthPrefix\<close> is \<open>undefined\<close>. On
  \<open>seven\<close>, a further \<open>set\<close> of a key with the same hash (a new one or the
  seventh again) throws the error for a bad child index at stage 6.
\<close>

theorem set_descends_to_stage_six:
  "hamt_set six AaBBBB 7 = Inr seven
   \<and> getNthPrefix (hashString AaBBBB) 6 = None
   \<and> f AaBBBB (7::nat) (hashString AaBBBB) 6 emptyNode
       = Inr (HNode 1 [AaBBBB] [Some 7] [None], True)
   \<and> hamt_set seven BBBBBB 8 = Inl BadChildIndex
   \<and> hamt_set seven AaBBBB 8 = Inl BadChildIndex"
  by code_simp

subsection \<open>The child node that a collision creates\<close>

text \<open>
  C7 as stated fails. \<open>"a"\<close> (code unit 97) and \<open>"!"\<close> (code unit 33) share the
  stage-0 index 1. After \<open>set("a", 0)\<close>, \<open>set("!", 1)\<close> finds the slot taken by
  \<open>"a"\<close> with no child, and the child it creates has the mask 2: bit 1, the stage-1
  index of \<open>"!"\<close>, the key being inserted. The stage-1 index of the stored key
  \<open>"a"\<close> is 3, whose mask would be 8.
\<close>

theorem collision_child_mask_counterexample:
  "hamt_set hamt_new [97] (0::nat)
     = Inr \<lparr>hamt_root = HNode 2 [[97]] [Some 0] [None], hamt_size = 1\<rparr>
   \<and> hamt_set \<lparr>hamt_root = HNode 2 [[97]] [Some 0] [None], hamt_size = 1\<rparr> [33] (1::nat)
     = Inr \<lparr>hamt_root = HNode 2 [[97]] [Some 0] [Some (HNode 2 [[33]] [Some 1] [None])],
            hamt_size = 2\<rparr>
   \<and> getNthPrefix (hashString [97]) 1 = Some 3
   \<and> setBit 0 (Some 3) = 8
   \<and> getNthPrefix (hashString [33]) 1 = Some 1
   \<and> setBit 0 (Some 1) = 2"
  by code_simp

text \<open>
  C7, amended. When the descent of \<open>set\<close> at a stage below 5 reaches a slot whose
  mask bit is set, whose stored key differs from the key being inserted and whose child
  pointer is \<open>null\<close>, the child is created empty and the recursive call stores the
  key being inserted in it: the node that \<open>set\<close> returns has, in that slot, a child
  holding just that key and value, with the single-bit mask \<open>1 << p\<close> where
  \<open>p\<close> is the next-stage hash index of the key being inserted. The mask, keys and
  values of the node itself are unchanged, so the stored key stays in its slot.
\<close>

theorem set_collision_child_holds_inserted_key:
  assumes "stage < 5"
    and "bitIndex = getNthPrefix (hashString key) stage"
    and "childIndex = childIndexOf (mask current) bitIndex"
    and "checkBit (mask current) bitIndex"
    and "at (keys current) childIndex \<noteq> Some key"
    and "at (nexts current) childIndex = Some None"
  shows "\<exists>p < 32. getNthPrefix (hashString key) (stage + 1) = Some p \<and>
           f key value (hashString key) stage current =
             Inr (HNode (mask current) (keys current) (vals current)
                    ((nexts current)[nat childIndex :=
                       Some (HNode (push_bit p 1) [key] [Some value] [None])]), True)"
proof -
  obtain p where p: "getNthPrefix (hashString key) (stage + 1) = Some p" and lt: "p < 32"
    using assms(1) getNthPrefix_Some [of "stage + 1" "hashString key"] by auto
  have sb: "setBit 0 (Some p) = push_bit p 1"
    using lt by (simp add: setBit_def shiftCount_def)
  have nr: "nextRef current childIndex = Null"
    using assms(6) by (simp add: nextRef_def)
  have "f key value (hashString key) stage current =
             Inr (HNode (mask current) (keys current) (vals current)
                    ((nexts current)[nat childIndex :=
                       Some (HNode (push_bit p 1) [key] [Some value] [None])]), True)"
    using assms(2-5) nr p sb
    by (subst f.simps) (simp add: f_emptyNode Let_def del: f.simps)
  then show ?thesis using lt p by blast
qed

theorem set_collision_child_holds_inserted_key_witness:
  "\<exists>p < 32. getNthPrefix (hashString [33]) (0 + 1) = Some p \<and>
      f [33] (1::nat) (hashString [33]) 0 (HNode 2 [[97]] [Some 0] [None]) =
        Inr (HNode 2 [[97]] [Some 0]
               ([None][nat 0 := Some (HNode (push_bit p 1) [[33]] [Some 1] [None])]), True)"
proof -
  have 1: "(0::nat) < 5" by simp
  have 2: "Some 1 = getNthPrefix (hashString [33]) 0" by code_simp
  have 3: "0 = childIndexOf (mask (HNode 2 [[97]] [Some (0::nat)] [None])) (Some 1)"
    by code_simp
  have 4: "checkBit (mask (HNode 2 [[97]] [Some (0::nat)] [None])) (Some 1)"
    by code_simp
  have 5: "at (keys (HNode 2 [[97]] [Some (0::nat)] [None])) 0 \<noteq> Some [33]"
    by code_simp
  have 6: "at (nexts (HNode 2 [[97]] [Some (0::nat)] [None])) 0 = Some None"
    by code_simp
  show ?thesis
    using set_collision_child_holds_inserted_key [OF 1 2 3 4 5 6, of 1] by simp
qed

subsection \<open>Array positions of slots\<close>

declare f.simps [simp del]

lemma filter_bit_beyond:
  fixes m :: "32 word"
  shows "filter (bit m) [32..<32 + k] = []"
  by (auto simp: filter_empty_conv dest: bit_imp_le_length)

lemma bc_unat_drop_bit:
  fixes m :: "32 word"
  shows "bc (unat (drop_bit s m)) = length (filter (bit m) [s..<32])"
proof -
  have lt: "unat (drop_bit s m) < 2 ^ 32" using unsigned_less [of "drop_bit s m"] by simp
  have "bit (unat (drop_bit s m)) = (\<lambda>j. bit m (s + j))"
    by (auto simp: fun_eq_iff bit_unsigned_iff bit_drop_bit_eq dest: bit_imp_le_length)
  then have "bc (unat (drop_bit s m)) = length (filter (\<lambda>j. bit m (s + j)) [0..<32])"
    using bc_filter [OF lt] by simp
  also have "\<dots> = length (filter (bit m) [s..<s + 32])"
  proof -
    have "map (\<lambda>j. j + s) [0..<n] = [s..<n + s]" for n by (rule map_add_upt)
    then have "[s..<s + n] = map (\<lambda>j. s + j) [0..<n]" for n by (simp add: add.commute)
    then have "filter (bit m) [s..<s + n] = map (\<lambda>j. s + j) (filter (\<lambda>j. bit m (s + j)) [0..<n])" for n
      by (simp only: filter_map comp_def)
    then show ?thesis by (simp only: length_map)
  qed
  also have "length (filter (bit m) [s..<s + 32]) = length (filter (bit m) [s..<32])"
  proof (cases "s \<le> 32")
    case True
    then have "[s..<s + 32] = [s..<32] @ [32..<32 + s]"
      using upt_add_eq_append [of s 32 s] by (simp only: add.commute)
    then show ?thesis using filter_bit_beyond [of m s] by simp
  next
    case False
    then have "filter (bit m) [s..<s + 32] = []"
      by (auto simp: filter_empty_conv dest: bit_imp_le_length)
    then show ?thesis using False by simp
  qed
  finally show ?thesis .
qed

lemma childIndexOf_Some:
  assumes "i < 32"
  shows "childIndexOf m (Some i) = int (countAbove m i)"
proof (cases "i = 31")
  case True
  then show ?thesis by (simp add: childIndexOf_def countAbove_def)
next
  case False
  then have "Suc i mod 32 = Suc i" using assms by simp
  then show ?thesis
    using False by (simp add: childIndexOf_def ushr_def plusOne_def shiftCount_def
        popCount_uint bc_unat_drop_bit countAbove_def del: upt_Suc)
qed

lemma checkBit_Some:
  assumes "i < 32"
  shows "checkBit m (Some i) = bit m i"
proof -
  have "signed_drop_bit i m AND 1 = 1 \<longleftrightarrow> bit (signed_drop_bit i m) 0"
    by (simp add: and_one_eq bit_0 mod_2_eq_odd)
  also have "\<dots> = bit m i" using assms by (simp add: bit_signed_drop_bit_iff)
  finally show ?thesis using assms by (simp add: checkBit_def shiftCount_def)
qed

lemma bit_setBit:
  assumes "i < 32"
  shows "bit (setBit m (Some i)) j \<longleftrightarrow> bit m j \<or> j = i"
  using assms by (auto simp: setBit_def shiftCount_def bit_or_iff bit_push_bit_iff bit_1_iff bit_exp_iff possible_bit_word)

lemma copyInsertLoop_eq:
  "copyInsertLoop e index i xs res =
     (res @ (if i \<le> index \<and> index < i + int (length xs)
             then take (nat (index - i)) xs @ e # drop (nat (index - i)) xs else xs),
      i + int (length xs))"
proof (induction xs arbitrary: i res)
  case Nil then show ?case by simp
next
  case (Cons a xs)
  show ?case
  proof (cases "i = index")
    case True then show ?thesis by (simp add: Cons.IH)
  next
    case False
    then have "nat (index - i) = Suc (nat (index - (i + 1)))" if "i \<le> index"
      using that by simp
    then show ?thesis using False by (auto simp: Cons.IH)
  qed
qed

lemma copyInsert_eq:
  "idx \<le> length xs \<Longrightarrow> copyInsert e (int idx) xs = take idx xs @ e # drop idx xs"
  by (auto simp: copyInsert_def copyInsertLoop_eq)

lemma set_copyInsert: "set (copyInsert e index xs) \<subseteq> insert e (set xs)"
proof -
  have "set (take n xs) \<union> set (drop n xs) \<subseteq> set xs" for n
    using set_take_subset set_drop_subset by fast
  then show ?thesis by (auto simp: copyInsert_def copyInsertLoop_eq)
qed

lemma count_split:
  "a \<le> i \<Longrightarrow> i < b \<Longrightarrow>
   length (filter P [a..<b]) =
     length (filter P [a..<i]) + (if P i then 1 else 0) + length (filter P [Suc i..<b])"
proof -
  assume "a \<le> i" "i < b"
  then have "[a..<b] = [a..<i] @ i # [Suc i..<b]"
    by (metis le_add_diff_inverse less_imp_le_nat upt_add_eq_append upt_conv_Cons)
  then show ?thesis by simp
qed

lemma count_insert:
  "length (filter (\<lambda>x. P x \<or> x = i) [a..<b]) =
     length (filter P [a..<b]) + (if a \<le> i \<and> i < b \<and> \<not> P i then 1 else 0)"
  by (induction b) auto

lemma countAll_split:
  "i < 32 \<Longrightarrow> countAll m = countBelow m i + (if bit m i then 1 else 0) + countAbove m i"
  unfolding countAll_def countBelow_def countAbove_def
  using count_split [of 0 i 32 "bit m"] by (simp only: le0)

lemma countAbove_less:
  assumes "i < j" "j < 32" "bit m j"
  shows "countAbove m j < countAbove m i"
  unfolding countAbove_def using count_split [of "Suc i" j 32 "bit m"] assms by simp

lemma countAbove_mono:
  assumes "i \<le> j" "j < 32"
  shows "countAbove m j \<le> countAbove m i"
proof (cases "i = j")
  case True then show ?thesis by simp
next
  case False
  then show ?thesis
    unfolding countAbove_def using count_split [of "Suc i" j 32 "bit m"] assms by simp
qed

lemma countAbove_inj:
  assumes "i < 32" "j < 32" "bit m i" "bit m j" "countAbove m i = countAbove m j"
  shows "i = j"
  using assms countAbove_less [of i j m] countAbove_less [of j i m]
  by (metis less_irrefl nat_neq_iff)

lemma countAbove_lt_countAll:
  "i < 32 \<Longrightarrow> bit m i \<Longrightarrow> countAbove m i < countAll m"
  using countAll_split [of i m] by simp

lemma countAbove_le_countAll:
  "i < 32 \<Longrightarrow> countAbove m i \<le> countAll m"
  using countAll_split [of i m] by simp

lemma countAbove_setBit:
  assumes "i < 32" "\<not> bit m i"
  shows "countAbove (setBit m (Some i)) j = countAbove m j + (if j < i then 1 else 0)"
proof -
  have "bit (setBit m (Some i)) = (\<lambda>x. bit m x \<or> x = i)"
    using bit_setBit [OF assms(1)] by (simp add: fun_eq_iff)
  then show ?thesis
    unfolding countAbove_def using count_insert [of "bit m" i "Suc j" 32] assms by auto
qed

lemma countAll_setBit:
  assumes "i < 32" "\<not> bit m i"
  shows "countAll (setBit m (Some i)) = countAll m + 1"
proof -
  have "bit (setBit m (Some i)) = (\<lambda>x. bit m x \<or> x = i)"
    using bit_setBit [OF assms(1)] by (simp add: fun_eq_iff)
  then show ?thesis
    unfolding countAll_def using count_insert [of "bit m" i 0 32] assms by (simp only: le0) simp
qed

lemma set_allKeys:
  "set (allKeys n) = set (keys n) \<union> (\<Union>c \<in> {c. Some c \<in> set (nexts n)}. set (allKeys c))"
  by (cases n) (auto split: option.splits)

lemma set_nodesAt:
  "set (nodesAt s n) = insert (s, n) (\<Union>c \<in> {c. Some c \<in> set (nexts n)}. set (nodesAt (Suc s) c))"
  by (cases n) (auto split: option.splits)

lemma trie_ok_rec:
  "trie_ok s n \<longleftrightarrow> (s \<le> 5 \<longrightarrow> slot_ok s n) \<and> (\<forall>c. Some c \<in> set (nexts n) \<longrightarrow> trie_ok (Suc s) c)"
  unfolding trie_ok_def set_nodesAt [of s n] by auto

lemma childKeys_subset:
  "idx < length (nexts n) \<Longrightarrow> nexts n ! idx = Some c \<Longrightarrow> childKeys n idx = allKeys c"
  by (simp add: childKeys_def)

lemma f_allKeys:
  "f key value hash stage current = Inr (n', b) \<Longrightarrow>
     set (allKeys n') \<subseteq> insert key (set (allKeys current))"
proof (induction key "value" hash stage current arbitrary: n' b rule: f.induct)
  case (1 key "value" hash stage current)
  define bitIndex where "bitIndex = getNthPrefix hash stage"
  define childIndex where "childIndex = childIndexOf (mask current) bitIndex"
  note IH = "1.IH" [OF bitIndex_def childIndex_def]
  show ?case
  proof (cases "checkBit (mask current) bitIndex")
    case False
    then have "n' = HNode (setBit (mask current) bitIndex)
                     (copyInsert key childIndex (keys current))
                     (copyInsert (Some value) childIndex (vals current))
                     (copyInsert None childIndex (nexts current))"
      using "1.prems" by (simp add: f.simps [of key "value" hash stage current] bitIndex_def childIndex_def Let_def)
    then show ?thesis
      using set_copyInsert [of key childIndex "keys current"]
        set_copyInsert [of None childIndex "nexts current"]
      by (auto simp: set_allKeys [of n'] set_allKeys [of current])
  next
    case cb: True
    show ?thesis
    proof (cases "at (keys current) childIndex = Some key")
      case True
      then have "n' = HNode (mask current) (keys current)
                       (store None (vals current) childIndex (Some value)) (nexts current)"
        using "1.prems" cb by (simp add: f.simps [of key "value" hash stage current] bitIndex_def childIndex_def Let_def)
      then show ?thesis by (auto simp: set_allKeys [of n'] set_allKeys [of current])
    next
      case km: False
      show ?thesis
      proof (cases "nextRef current childIndex")
        case Undefined
        then show ?thesis using "1.prems" cb km
          by (simp add: f.simps [of key "value" hash stage current] bitIndex_def childIndex_def Let_def)
      next
        case Null
        from "1.prems" cb km Null obtain child where
          c: "f key value hash (stage + 1) emptyNode = Inr (child, b)"
          and n': "n' = HNode (mask current) (keys current) (vals current)
                      ((nexts current)[nat childIndex := Some child])"
          by (auto simp: f.simps [of key "value" hash stage current] bitIndex_def childIndex_def Let_def
              split: sum.splits)
        have "set (allKeys child) \<subseteq> insert key (set (allKeys (emptyNode :: 'a hamt_node)))"
          using IH(1) [OF cb km Null c] .
        then have "set (allKeys child) \<subseteq> {key}" by (simp add: emptyNode_def)
        then show ?thesis
          using set_update_subset_insert [of "nexts current" "nat childIndex" "Some child"]
          unfolding n' by (fastforce simp: set_allKeys [of "HNode _ _ _ _"] set_allKeys [of current])
      next
        case (Ref n)
        from "1.prems" cb km Ref obtain child where
          c: "f key value hash (stage + 1) n = Inr (child, b)"
          and n': "n' = HNode (mask current) (keys current) (vals current)
                      ((nexts current)[nat childIndex := Some child])"
          by (auto simp: f.simps [of key "value" hash stage current] bitIndex_def childIndex_def Let_def
              split: sum.splits)
        have sub: "set (allKeys child) \<subseteq> insert key (set (allKeys n))"
          using IH(2) [OF cb km Ref c] .
        have "Some n \<in> set (nexts current)"
          using Ref by (auto simp: nextRef_def split: option.splits dest: at_mem)
        then have "set (allKeys n) \<subseteq> set (allKeys current)"
          by (auto simp: set_allKeys [of current])
        then show ?thesis
          using sub set_update_subset_insert [of "nexts current" "nat childIndex" "Some child"]
          unfolding n' by (fastforce simp: set_allKeys [of "HNode _ _ _ _"] set_allKeys [of current])
      qed
    qed
  qed
qed

lemma slot_ok_alt:
  "slot_ok stage n \<longleftrightarrow>
     length (keys n) = countAll (mask n) \<and> length (vals n) = countAll (mask n)
      \<and> length (nexts n) = countAll (mask n)
      \<and> (\<forall>i<32. bit (mask n) i \<longrightarrow>
            getNthPrefix (hashString (keys n ! countAbove (mask n) i)) stage = Some i
            \<and> vals n ! countAbove (mask n) i \<noteq> None
            \<and> (\<forall>k \<in> set (childKeys n (countAbove (mask n) i)).
                  getNthPrefix (hashString k) stage = Some i))"
  unfolding slot_ok_def set_upt by auto

lemma nodesAt_ge: "(s, n') \<in> set (nodesAt st n) \<Longrightarrow> st \<le> s"
proof (induction st n arbitrary: s n' rule: nodesAt.induct)
  case (1 stage m ks vs ns)
  from "1.prems" consider "s = stage" | c where "Some c \<in> set ns" "(s, n') \<in> set (nodesAt (Suc stage) c)"
    by (auto split: option.splits)
  then show ?case
  proof cases
    case 1 then show ?thesis by simp
  next
    case 2
    then have "Suc stage \<le> s" using "1.IH" by blast
    then show ?thesis by simp
  qed
qed

lemma trie_ok_beyond: "5 < stage \<Longrightarrow> trie_ok stage n"
  unfolding trie_ok_def using nodesAt_ge by fastforce

lemma countAll_0: "countAll 0 = 0"
  by (simp add: countAll_def)

lemma trie_ok_emptyNode: "trie_ok stage emptyNode"
  unfolding emptyNode_def by (subst trie_ok_rec) (simp add: slot_ok_alt countAll_0)

lemma slot_ok_store:
  assumes "slot_ok s n"
  shows "slot_ok s (HNode (mask n) (keys n) ((vals n)[idx := Some v]) (nexts n))"
proof -
  have "(vals n)[idx := Some v] ! countAbove (mask n) i \<noteq> None"
    if "i < 32" "bit (mask n) i" "vals n ! countAbove (mask n) i \<noteq> None" for i
  proof -
    have "countAbove (mask n) i < length (vals n)"
      using that(1,2) assms countAbove_lt_countAll [of i "mask n"] by (simp add: slot_ok_alt)
    then show ?thesis
      using that(3) by (cases "idx = countAbove (mask n) i") simp_all
  qed
  then show ?thesis
    using assms unfolding slot_ok_alt by (simp add: childKeys_def)
qed

lemma slot_ok_child_update:
  assumes ok: "slot_ok s n" and i: "i < 32" "bit (mask n) i"
    and c: "\<forall>k \<in> set (allKeys c). getNthPrefix (hashString k) s = Some i"
  shows "slot_ok s (HNode (mask n) (keys n) (vals n)
                      ((nexts n)[countAbove (mask n) i := Some c]))"
proof -
  have len: "countAbove (mask n) i < length (nexts n)"
    using ok i countAbove_lt_countAll [of i "mask n"] by (simp add: slot_ok_alt)
  have "childKeys (HNode (mask n) (keys n) (vals n) ((nexts n)[countAbove (mask n) i := Some c]))
          (countAbove (mask n) j) =
        (if j = i then allKeys c else childKeys n (countAbove (mask n) j))"
    if "j < 32" "bit (mask n) j" for j
    using countAbove_inj [OF that(1) i(1) that(2) i(2)] len
    by (auto simp: childKeys_def nth_list_update)
  then show ?thesis using ok c unfolding slot_ok_alt by auto
qed

lemma nth_insert:
  assumes "idx \<le> length xs"
  shows "(take idx xs @ e # drop idx xs) ! c =
           (if c < idx then xs ! c else if c = idx then e else xs ! (c - 1))"
proof -
  have l: "length (take idx xs) = idx" using assms by simp
  show ?thesis
  proof (cases "c < idx")
    case True then show ?thesis using assms by (simp add: nth_append)
  next
    case False
    show ?thesis
    proof (cases "c = idx")
      case True then show ?thesis using assms by (simp add: nth_append min_absorb2)
    next
      case ne: False
      then obtain d where d: "c = idx + Suc d" using False
        by (metis add_Suc_right less_imp_Suc_add linorder_neqE_nat)
      then have "(take idx xs @ e # drop idx xs) ! c = drop idx xs ! d"
        using assms by (simp add: nth_append min_absorb2)
      also have "\<dots> = xs ! (idx + d)" by (simp add: assms)
      finally show ?thesis using d by simp
    qed
  qed
qed

lemma slot_ok_insert:
  assumes ok: "slot_ok s n" and i: "i < 32" "\<not> bit (mask n) i"
    and h: "getNthPrefix (hashString key) s = Some i"
  shows "slot_ok s (HNode (setBit (mask n) (Some i))
                     (copyInsert key (int (countAbove (mask n) i)) (keys n))
                     (copyInsert (Some v) (int (countAbove (mask n) i)) (vals n))
                     (copyInsert None (int (countAbove (mask n) i)) (nexts n)))"
proof -
  define m idx m' where "m = mask n" and "idx = countAbove (mask n) i"
    and "m' = setBit (mask n) (Some i)"
  have lens: "length (keys n) = countAll m" "length (vals n) = countAll m"
    "length (nexts n) = countAll m"
    using ok by (simp_all add: slot_ok_alt m_def)
  have idx: "idx \<le> countAll m" unfolding idx_def m_def using i(1) by (rule countAbove_le_countAll)
  have ci: "copyInsert e (int idx) xs = take idx xs @ e # drop idx xs"
    if "length xs = countAll m" for e :: 'b and xs
    using idx that by (simp add: copyInsert_eq)
  have pos: "(take idx xs @ e # drop idx xs) ! countAbove m' j =
               (if j = i then e else xs ! countAbove m j)"
    if "length xs = countAll m" "j < 32" "bit m' j" for e :: 'b and xs j
  proof -
    have le: "idx \<le> length xs" using idx that(1) by simp
    have c': "countAbove m' j = countAbove m j + (if j < i then 1 else 0)"
      unfolding m'_def m_def using i by (rule countAbove_setBit)
    consider "j = i" | "i < j" | "j < i" by linarith
    then show ?thesis
    proof cases
      case 1
      have "countAbove m i = idx" by (simp add: idx_def m_def)
      then show ?thesis using 1 c' by (simp add: nth_insert [OF le])
    next
      case 2
      then have "bit m j" using that(3) bit_setBit [OF i(1), of "mask n" j] by (simp add: m'_def m_def)
      then have "countAbove m j < idx"
        unfolding idx_def m_def using 2 that(2) countAbove_less [of i j "mask n"] by (simp add: m_def)
      then show ?thesis using 2 c' by (simp add: nth_insert [OF le])
    next
      case 3
      have "idx \<le> countAbove m j"
        unfolding idx_def m_def using 3 i(1) countAbove_mono [of j i "mask n"] by simp
      then show ?thesis using 3 c' by (simp add: nth_insert [OF le])
    qed
  qed
  have old: "bit m j" if "j < 32" "bit m' j" "j \<noteq> i" for j
    using that bit_setBit [OF i(1), of "mask n" j] by (simp add: m'_def m_def)
  have okj: "getNthPrefix (hashString (keys n ! countAbove m j)) s = Some j
            \<and> vals n ! countAbove m j \<noteq> None
            \<and> (\<forall>k \<in> set (childKeys n (countAbove m j)). getNthPrefix (hashString k) s = Some j)"
    if "j < 32" "bit m j" for j
    using ok that by (simp add: slot_ok_alt m_def)
  let ?n' = "HNode m' (take idx (keys n) @ key # drop idx (keys n))
                 (take idx (vals n) @ Some v # drop idx (vals n))
                 (take idx (nexts n) @ None # drop idx (nexts n))"
  have "slot_ok s ?n'"
    unfolding slot_ok_alt
  proof (intro conjI allI impI)
    show "length (keys ?n') = countAll (mask ?n')" "length (vals ?n') = countAll (mask ?n')"
      "length (nexts ?n') = countAll (mask ?n')"
      using lens idx countAll_setBit [OF i] by (simp_all add: m'_def m_def)
  next
    fix j assume j: "j < 32" "bit (mask ?n') j"
    then have b: "bit m' j" by simp
    show "getNthPrefix (hashString (keys ?n' ! countAbove (mask ?n') j)) s = Some j"
      using pos [OF lens(1) j(1) b, of key] h okj [OF j(1)] old [OF j(1) b] by auto
    show "vals ?n' ! countAbove (mask ?n') j \<noteq> None"
      using pos [OF lens(2) j(1) b, of "Some v"] okj [OF j(1)] old [OF j(1) b] by auto
    show "\<forall>k \<in> set (childKeys ?n' (countAbove (mask ?n') j)). getNthPrefix (hashString k) s = Some j"
      using pos [OF lens(3) j(1) b, of None] okj [OF j(1)] old [OF j(1) b]
      by (auto simp: childKeys_def)
  qed
  then show ?thesis
    using ci [OF lens(1)] ci [OF lens(2)] ci [OF lens(3)]
    by (simp add: m'_def idx_def)
qed

lemma nextRef_cases:
  "nextRef current (int idx) = Null \<Longrightarrow> idx < length (nexts current) \<and> nexts current ! idx = None"
  "nextRef current (int idx) = Ref n \<Longrightarrow> idx < length (nexts current) \<and> nexts current ! idx = Some n"
  by (auto simp: nextRef_def at_def split: option.splits if_splits)

lemma f_trie_ok:
  "f key value hash stage current = Inr (n', b) \<Longrightarrow> hash = hashString key \<Longrightarrow>
     trie_ok stage current \<Longrightarrow> trie_ok stage n'"
proof (induction key "value" hash stage current arbitrary: n' b rule: f.induct)
  case (1 key "value" hash stage current)
  show ?case
  proof (cases "5 < stage")
    case True then show ?thesis by (rule trie_ok_beyond)
  next
    case False
    then have st: "stage \<le> 5" by simp
    then obtain i where bi: "getNthPrefix hash stage = Some i" and i: "i < 32"
      using getNthPrefix_Some [of stage hash] by auto
    define m idx where "m = mask current" and "idx = countAbove (mask current) i"
    have ci: "childIndexOf (mask current) (Some i) = int idx"
      unfolding idx_def using i by (rule childIndexOf_Some)
    have cb: "checkBit (mask current) (Some i) = bit (mask current) i"
      using i by (rule checkBit_Some)
    have h: "getNthPrefix (hashString key) stage = Some i" using bi "1.prems"(2) by simp
    have sok: "slot_ok stage current" and cok: "\<And>c. Some c \<in> set (nexts current) \<Longrightarrow> trie_ok (Suc stage) c"
      using "1.prems"(3) st by (simp_all add: trie_ok_rec [of stage current])
    note IH = "1.IH" [OF bi [symmetric] ci [symmetric]]
    note fs = f.simps [of key "value" hash stage current] bi ci cb Let_def
    show ?thesis
    proof (cases "bit (mask current) i")
      case False
      then have n': "n' = HNode (setBit (mask current) (Some i))
                     (copyInsert key (int idx) (keys current))
                     (copyInsert (Some value) (int idx) (vals current))
                     (copyInsert None (int idx) (nexts current))"
        using "1.prems"(1) by (simp add: fs)
      have "slot_ok stage n'"
        unfolding n' idx_def using sok i False h by (rule slot_ok_insert)
      moreover have "trie_ok (Suc stage) c" if "Some c \<in> set (nexts n')" for c
        using that set_copyInsert [of None "int idx" "nexts current"] cok unfolding n' by auto
      ultimately show ?thesis by (simp add: trie_ok_rec [of stage n'])
    next
      case bt: True
      have lt: "idx < countAll (mask current)"
        unfolding idx_def using i bt by (rule countAbove_lt_countAll)
      have lens: "length (keys current) = countAll (mask current)"
        "length (vals current) = countAll (mask current)"
        "length (nexts current) = countAll (mask current)"
        using sok by (simp_all add: slot_ok_alt)
      show ?thesis
      proof (cases "at (keys current) (int idx) = Some key")
        case True
        then have n': "n' = HNode (mask current) (keys current)
                       ((vals current)[idx := Some value]) (nexts current)"
          using "1.prems"(1) bt lt lens by (simp add: fs store_def)
        have "slot_ok stage n'" unfolding n' using sok by (rule slot_ok_store)
        moreover have "trie_ok (Suc stage) c" if "Some c \<in> set (nexts n')" for c
          using that cok unfolding n' by simp
        ultimately show ?thesis by (simp add: trie_ok_rec [of stage n'])
      next
        case km: False
        show ?thesis
        proof (cases "nextRef current (int idx)")
          case Undefined
          then show ?thesis using "1.prems"(1) bt km by (simp add: fs)
        next
          case Null
          from "1.prems"(1) bt km Null obtain child where
            c: "f key value hash (stage + 1) emptyNode = Inr (child, b)"
            and n': "n' = HNode (mask current) (keys current) (vals current)
                        ((nexts current)[idx := Some child])"
            by (auto simp: fs split: sum.splits)
          have tc: "trie_ok (stage + 1) child"
            using IH(1) [OF _ _ _ c "1.prems"(2) trie_ok_emptyNode] bt km Null by (simp add: cb)
          have "set (allKeys child) \<subseteq> insert key (set (allKeys (emptyNode :: 'a hamt_node)))"
            using c by (rule f_allKeys)
          then have "\<forall>k \<in> set (allKeys child). getNthPrefix (hashString k) stage = Some i"
            using h by (auto simp: emptyNode_def)
          then have "slot_ok stage n'"
            unfolding n' idx_def using sok i bt slot_ok_child_update by blast
          moreover have "trie_ok (Suc stage) c" if "Some c \<in> set (nexts n')" for c
            using that cok tc set_update_subset_insert [of "nexts current" idx "Some child"]
            unfolding n' by auto
          ultimately show ?thesis by (simp add: trie_ok_rec [of stage n'])
        next
          case (Ref n)
          from "1.prems"(1) bt km Ref obtain child where
            c: "f key value hash (stage + 1) n = Inr (child, b)"
            and n': "n' = HNode (mask current) (keys current) (vals current)
                        ((nexts current)[idx := Some child])"
            by (auto simp: fs split: sum.splits)
          have nx: "idx < length (nexts current)" "nexts current ! idx = Some n"
            using nextRef_cases(2) [OF Ref] by simp_all
          then have mem: "Some n \<in> set (nexts current)" by (metis nth_mem)
          have tc: "trie_ok (stage + 1) child"
            using IH(2) [OF _ _ _ c "1.prems"(2)] cok [OF mem] bt km Ref by (simp add: cb)
          have "set (allKeys child) \<subseteq> insert key (set (allKeys n))"
            using c by (rule f_allKeys)
          moreover have "\<forall>k \<in> set (allKeys n). getNthPrefix (hashString k) stage = Some i"
            using sok i bt nx by (auto simp: slot_ok_alt childKeys_def idx_def)
          ultimately have "\<forall>k \<in> set (allKeys child). getNthPrefix (hashString k) stage = Some i"
            using h by auto
          then have "slot_ok stage n'"
            unfolding n' idx_def using sok i bt slot_ok_child_update by blast
          moreover have "trie_ok (Suc stage) c" if "Some c \<in> set (nexts n')" for c
            using that cok tc set_update_subset_insert [of "nexts current" idx "Some child"]
            unfolding n' by auto
          ultimately show ?thesis by (simp add: trie_ok_rec [of stage n'])
        qed
      qed
    qed
  qed
qed

lemma hamt_set_trie_ok:
  "hamt_set h k v = Inr h' \<Longrightarrow> trie_ok 0 (hamt_root h) \<Longrightarrow> trie_ok 0 (hamt_root h')"
  by (auto simp: hamt_set_def split: sum.splits dest: f_trie_ok)

lemma hamt_setAll_trie_ok:
  "hamt_setAll h kvs = Inr h' \<Longrightarrow> trie_ok 0 (hamt_root h) \<Longrightarrow> trie_ok 0 (hamt_root h')"
proof (induction kvs arbitrary: h)
  case Nil then show ?case by simp
next
  case (Cons kv kvs)
  obtain k v where kv: "kv = (k, v)" by (cases kv)
  from Cons.prems(1) obtain h1 where 1: "hamt_set h k v = Inr h1" and 2: "hamt_setAll h1 kvs = Inr h'"
    by (auto simp: kv split: sum.splits)
  show ?case using Cons.IH [OF 2] hamt_set_trie_ok [OF 1 Cons.prems(2)] by simp
qed

subsection \<open>Values of slots\<close>

lemma vals_ok_alt:
  "vals_ok M n \<longleftrightarrow>
     (\<forall>i<32. bit (mask n) i \<longrightarrow>
        vals n ! countAbove (mask n) i = M (keys n ! countAbove (mask n) i)
        \<and> keys n ! countAbove (mask n) i \<notin> set (childKeys n (countAbove (mask n) i)))"
  unfolding vals_ok_def set_upt by auto

lemma trie_vals_ok_rec:
  "trie_vals_ok s M n \<longleftrightarrow>
     (s \<le> 5 \<longrightarrow> vals_ok M n) \<and> (\<forall>c. Some c \<in> set (nexts n) \<longrightarrow> trie_vals_ok (Suc s) M c)"
  unfolding trie_vals_ok_def set_nodesAt [of s n] by auto

lemma trie_vals_ok_beyond: "5 < stage \<Longrightarrow> trie_vals_ok stage M n"
  unfolding trie_vals_ok_def using nodesAt_ge by fastforce

lemma trie_vals_ok_emptyNode: "trie_vals_ok stage M emptyNode"
  unfolding emptyNode_def by (subst trie_vals_ok_rec) (simp add: vals_ok_alt)

lemma countAll_card: "countAll m = card {j. j < 32 \<and> bit m j}"
proof -
  have "countAll m = card (set (filter (bit m) [0..<32]))"
    unfolding countAll_def by (rule distinct_card [symmetric]) simp
  also have "set (filter (bit m) [0..<32]) = {j. j < 32 \<and> bit m j}"
    unfolding set_filter set_upt by auto
  finally show ?thesis .
qed

lemma countAbove_surj:
  assumes "idx < countAll m"
  shows "\<exists>j<32. bit m j \<and> countAbove m j = idx"
proof -
  let ?S = "{j. j < 32 \<and> bit m j}"
  have fin: "finite ?S" by simp
  have inj: "inj_on (countAbove m) ?S"
    unfolding inj_on_def using countAbove_inj [of _ _ m] by auto
  have sub: "countAbove m ` ?S \<subseteq> {..<countAll m}"
    using countAbove_lt_countAll [of _ m] by auto
  have "card (countAbove m ` ?S) = countAll m"
    using card_image [OF inj] by (simp add: countAll_card)
  then have "countAbove m ` ?S = {..<countAll m}"
    using sub by (intro card_subset_eq) simp_all
  then have "idx \<in> countAbove m ` ?S" using assms by simp
  then show ?thesis by auto
qed

lemma nodesAt_allKeys:
  "(s, n') \<in> set (nodesAt st n) \<Longrightarrow> set (allKeys n') \<subseteq> set (allKeys n)"
proof (induction st n arbitrary: s n' rule: nodesAt.induct)
  case (1 stage m ks vs ns)
  from "1.prems" consider "n' = HNode m ks vs ns"
    | c where "Some c \<in> set ns" "(s, n') \<in> set (nodesAt (Suc stage) c)"
    by (auto split: option.splits)
  then show ?case
  proof cases
    case 1 then show ?thesis by simp
  next
    case 2
    then have "set (allKeys n') \<subseteq> set (allKeys c)" using "1.IH" by blast
    moreover have "set (allKeys c) \<subseteq> set (allKeys (HNode m ks vs ns))"
      using 2(1) by (auto simp: set_allKeys [of "HNode m ks vs ns"])
    ultimately show ?thesis by blast
  qed
qed

lemma slot_key_mem:
  assumes "slot_ok s n" and "i < 32" and "bit (mask n) i"
  shows "keys n ! countAbove (mask n) i \<in> set (allKeys n)"
proof -
  have "countAbove (mask n) i < length (keys n)"
    using assms countAbove_lt_countAll [of i "mask n"] by (simp add: slot_ok_alt)
  then have "keys n ! countAbove (mask n) i \<in> set (keys n)" by (rule nth_mem)
  then show ?thesis by (simp add: set_allKeys [of n])
qed

lemma trie_vals_ok_upd:
  assumes ok: "trie_ok stage n" and vok: "trie_vals_ok stage M n"
    and nk: "key \<notin> set (allKeys n)"
  shows "trie_vals_ok stage (M(key \<mapsto> v)) n"
  unfolding trie_vals_ok_def
proof (intro ballI, clarify)
  fix s n' assume mem: "(s, n') \<in> set (nodesAt stage n)" and s: "s \<le> 5"
  have sok: "slot_ok s n'" using ok mem s by (auto simp: trie_ok_def)
  have v: "vals_ok M n'" using vok mem s by (auto simp: trie_vals_ok_def)
  have sub: "set (allKeys n') \<subseteq> set (allKeys n)" using mem by (rule nodesAt_allKeys)
  show "vals_ok (M(key \<mapsto> v)) n'"
    unfolding vals_ok_alt
  proof (intro allI impI)
    fix i assume i: "i < 32" "bit (mask n') i"
    have "keys n' ! countAbove (mask n') i \<noteq> key"
      using slot_key_mem [OF sok i] sub nk by auto
    then show "vals n' ! countAbove (mask n') i = (M(key \<mapsto> v)) (keys n' ! countAbove (mask n') i)
        \<and> keys n' ! countAbove (mask n') i \<notin> set (childKeys n' (countAbove (mask n') i))"
      using v i by (simp add: vals_ok_alt)
  qed
qed

lemma child_slot:
  assumes sok: "slot_ok s n" and c: "Some c \<in> set (nexts n)"
  shows "\<exists>j<32. bit (mask n) j \<and> childKeys n (countAbove (mask n) j) = allKeys c"
proof -
  from c obtain idx where idx: "idx < length (nexts n)" "nexts n ! idx = Some c"
    by (auto simp: in_set_conv_nth)
  then have "idx < countAll (mask n)" using sok by (simp add: slot_ok_alt)
  from countAbove_surj [OF this] obtain j where "j < 32" "bit (mask n) j"
    "countAbove (mask n) j = idx" by blast
  then show ?thesis using idx by (auto simp: childKeys_def)
qed

lemma other_child:
  assumes sok: "slot_ok s n" and c: "Some c \<in> set (nexts n)"
    and h: "getNthPrefix (hashString key) s = Some i"
    and ni: "\<And>j. j < 32 \<Longrightarrow> bit (mask n) j \<Longrightarrow> j = i \<Longrightarrow>
               key \<notin> set (childKeys n (countAbove (mask n) j))"
  shows "key \<notin> set (allKeys c)"
proof -
  from child_slot [OF sok c] obtain j where j: "j < 32" "bit (mask n) j"
    and ck: "childKeys n (countAbove (mask n) j) = allKeys c" by blast
  show ?thesis
  proof (cases "j = i")
    case True
    then show ?thesis using ni [OF j] ck by simp
  next
    case False
    have "\<forall>k \<in> set (childKeys n (countAbove (mask n) j)). getNthPrefix (hashString k) s = Some j"
      using sok j by (simp add: slot_ok_alt)
    then show ?thesis using h False ck by auto
  qed
qed

lemma other_child_pos:
  assumes sok: "slot_ok s n" and p: "p < length (nexts n)" "nexts n ! p = Some c"
    and h: "getNthPrefix (hashString key) s = Some i"
    and ne: "p \<noteq> countAbove (mask n) i"
  shows "key \<notin> set (allKeys c)"
proof -
  have "p < countAll (mask n)" using sok p(1) by (simp add: slot_ok_alt)
  from countAbove_surj [OF this] obtain j where j: "j < 32" "bit (mask n) j"
    and pj: "countAbove (mask n) j = p" by blast
  have "j \<noteq> i" using pj ne by auto
  moreover have "\<forall>k \<in> set (childKeys n (countAbove (mask n) j)).
      getNthPrefix (hashString k) s = Some j"
    using sok j by (simp add: slot_ok_alt)
  ultimately show ?thesis using h p(2) pj by (auto simp: childKeys_def)
qed

lemma insert_pos:
  assumes i: "i < 32" "\<not> bit m i" and len: "length xs = countAll m"
    and j: "j < 32" "bit (setBit m (Some i)) j"
  shows "(take (countAbove m i) xs @ e # drop (countAbove m i) xs) ! countAbove (setBit m (Some i)) j
         = (if j = i then e else xs ! countAbove m j)"
proof -
  define idx where "idx = countAbove m i"
  have le: "idx \<le> length xs"
    unfolding idx_def len using i(1) by (rule countAbove_le_countAll)
  have c': "countAbove (setBit m (Some i)) j = countAbove m j + (if j < i then 1 else 0)"
    using i by (rule countAbove_setBit)
  consider "j = i" | "i < j" | "j < i" by linarith
  then have "(take idx xs @ e # drop idx xs) ! countAbove (setBit m (Some i)) j
         = (if j = i then e else xs ! countAbove m j)"
  proof cases
    case 1
    have "countAbove m i = idx" by (simp add: idx_def)
    then show ?thesis using 1 c' by (simp add: nth_insert [OF le])
  next
    case 2
    then have "bit m j" using j(2) bit_setBit [OF i(1), of m j] by simp
    then have "countAbove m j < idx"
      unfolding idx_def using 2 j(1) countAbove_less [of i j m] by simp
    then show ?thesis using 2 c' by (simp add: nth_insert [OF le])
  next
    case 3
    have "idx \<le> countAbove m j"
      unfolding idx_def using 3 i(1) countAbove_mono [of j i m] by simp
    then show ?thesis using 3 c' by (simp add: nth_insert [OF le])
  qed
  then show ?thesis by (simp add: idx_def)
qed

lemma f_vals_ok:
  "f key value hash stage current = Inr (n', b) \<Longrightarrow> hash = hashString key \<Longrightarrow>
     trie_ok stage current \<Longrightarrow> trie_vals_ok stage M current \<Longrightarrow>
     trie_vals_ok stage (M(key \<mapsto> value)) n'"
proof (induction key "value" hash stage current arbitrary: n' b rule: f.induct)
  case (1 key "value" hash stage current)
  let ?M = "M(key \<mapsto> value)"
  show ?case
  proof (cases "5 < stage")
    case True then show ?thesis by (rule trie_vals_ok_beyond)
  next
    case False
    then have st: "stage \<le> 5" by simp
    then obtain i where bi: "getNthPrefix hash stage = Some i" and i: "i < 32"
      using getNthPrefix_Some [of stage hash] by auto
    define idx where "idx = countAbove (mask current) i"
    have ci: "childIndexOf (mask current) (Some i) = int idx"
      unfolding idx_def using i by (rule childIndexOf_Some)
    have cb: "checkBit (mask current) (Some i) = bit (mask current) i"
      using i by (rule checkBit_Some)
    have h: "getNthPrefix (hashString key) stage = Some i" using bi "1.prems"(2) by simp
    have sok: "slot_ok stage current"
      and cok: "\<And>c. Some c \<in> set (nexts current) \<Longrightarrow> trie_ok (Suc stage) c"
      using "1.prems"(3) st by (simp_all add: trie_ok_rec [of stage current])
    have vok: "vals_ok M current"
      and cvok: "\<And>c. Some c \<in> set (nexts current) \<Longrightarrow> trie_vals_ok (Suc stage) M c"
      using "1.prems"(4) st by (simp_all add: trie_vals_ok_rec [of stage M current])
    have lens: "length (keys current) = countAll (mask current)"
      "length (vals current) = countAll (mask current)"
      "length (nexts current) = countAll (mask current)"
      using sok by (simp_all add: slot_ok_alt)
    have slot: "getNthPrefix (hashString (keys current ! countAbove (mask current) j)) stage = Some j"
      "\<forall>k \<in> set (childKeys current (countAbove (mask current) j)).
          getNthPrefix (hashString k) stage = Some j"
      "vals current ! countAbove (mask current) j = M (keys current ! countAbove (mask current) j)"
      "keys current ! countAbove (mask current) j
         \<notin> set (childKeys current (countAbove (mask current) j))"
      if "j < 32" "bit (mask current) j" for j
      using sok vok that by (simp_all add: slot_ok_alt vals_ok_alt)
    have other: "keys current ! countAbove (mask current) j \<noteq> key"
      if "j < 32" "bit (mask current) j" "j \<noteq> i" for j
      using slot(1) [OF that(1,2)] h that(3) by auto
    have untouched: "trie_vals_ok (Suc stage) ?M c"
      if "Some c \<in> set (nexts current)" "key \<notin> set (allKeys c)" for c
      using cok [OF that(1)] cvok [OF that(1)] that(2) by (rule trie_vals_ok_upd)
    note IH = "1.IH" [OF bi [symmetric] ci [symmetric]]
    note fs = f.simps [of key "value" hash stage current] bi ci cb Let_def
    show ?thesis
    proof (cases "bit (mask current) i")
      case False
      then have n': "n' = HNode (setBit (mask current) (Some i))
                     (copyInsert key (int idx) (keys current))
                     (copyInsert (Some value) (int idx) (vals current))
                     (copyInsert None (int idx) (nexts current))"
        using "1.prems"(1) by (simp add: fs)
      have le: "idx \<le> countAll (mask current)"
        unfolding idx_def using i by (rule countAbove_le_countAll)
      have n'': "n' = HNode (setBit (mask current) (Some i))
                     (take idx (keys current) @ key # drop idx (keys current))
                     (take idx (vals current) @ Some value # drop idx (vals current))
                     (take idx (nexts current) @ None # drop idx (nexts current))"
        unfolding n' using le lens by (simp add: copyInsert_eq)
      have "vals_ok ?M n'"
        unfolding vals_ok_alt
      proof (intro allI impI)
        fix j assume j: "j < 32" "bit (mask n') j"
        then have bj: "bit (setBit (mask current) (Some i)) j" by (simp add: n'')
        note p = insert_pos [OF i False _ j(1) bj, folded idx_def]
        have old: "bit (mask current) j" if "j \<noteq> i"
          using that bj bit_setBit [OF i, of "mask current" j] by simp
        show "vals n' ! countAbove (mask n') j = ?M (keys n' ! countAbove (mask n') j)
              \<and> keys n' ! countAbove (mask n') j \<notin> set (childKeys n' (countAbove (mask n') j))"
        proof (cases "j = i")
          case True
          then show ?thesis
            using p [OF lens(1), of key] p [OF lens(2), of "Some value"] p [OF lens(3), of None]
            by (simp add: n'' childKeys_def)
        next
          case ne: False
          show ?thesis
            using p [OF lens(1), of key] p [OF lens(2), of "Some value"] p [OF lens(3), of None]
              slot(3,4) [OF j(1) old [OF ne]] other [OF j(1) old [OF ne] ne] ne
            by (simp add: n'' childKeys_def)
        qed
      qed
      moreover have "trie_vals_ok (Suc stage) ?M c" if "Some c \<in> set (nexts n')" for c
      proof -
        have c: "Some c \<in> set (nexts current)"
          using that set_copyInsert [of None "int idx" "nexts current"] unfolding n' by auto
        have "key \<notin> set (allKeys c)"
          using False by (intro other_child [OF sok c h]) auto
        then show ?thesis using c by (intro untouched)
      qed
      ultimately show ?thesis unfolding trie_vals_ok_rec [of stage ?M n'] by blast
    next
      case bt: True
      have lt: "idx < countAll (mask current)"
        unfolding idx_def using i bt by (rule countAbove_lt_countAll)
      have at_keys: "at (keys current) (int idx) = Some (keys current ! idx)"
        using lt lens by (simp add: at_def)
      have same: "countAbove (mask current) j = idx \<longleftrightarrow> j = i"
        if "j < 32" "bit (mask current) j" for j
        using countAbove_inj [OF that(1) i that(2) bt] by (auto simp: idx_def)
      show ?thesis
      proof (cases "at (keys current) (int idx) = Some key")
        case True
        then have ki: "keys current ! idx = key" using at_keys by simp
        have n': "n' = HNode (mask current) (keys current)
                       ((vals current)[idx := Some value]) (nexts current)"
          using "1.prems"(1) bt lt lens True by (simp add: fs store_def)
        have "vals_ok ?M n'"
          unfolding vals_ok_alt
        proof (intro allI impI)
          fix j assume j: "j < 32" "bit (mask n') j"
          then have bj: "bit (mask current) j" by (simp add: n')
          show "vals n' ! countAbove (mask n') j = ?M (keys n' ! countAbove (mask n') j)
              \<and> keys n' ! countAbove (mask n') j \<notin> set (childKeys n' (countAbove (mask n') j))"
          proof (cases "j = i")
            case True
            then show ?thesis
              using slot(4) [OF j(1) bj] ki lt lens
              by (simp add: n' childKeys_def idx_def [symmetric])
          next
            case ne: False
            then have "countAbove (mask current) j \<noteq> idx" using same [OF j(1) bj] by simp
            then show ?thesis
              using slot(3,4) [OF j(1) bj] other [OF j(1) bj ne]
              by (simp add: n' childKeys_def)
          qed
        qed
        moreover have "trie_vals_ok (Suc stage) ?M c" if "Some c \<in> set (nexts n')" for c
        proof -
          have c: "Some c \<in> set (nexts current)" using that by (simp add: n')
          have "key \<notin> set (allKeys c)"
          proof (rule other_child [OF sok c h])
            fix j assume "j < 32" "bit (mask current) j" "j = i"
            then show "key \<notin> set (childKeys current (countAbove (mask current) j))"
              using slot(4) [OF i bt] ki by (simp add: idx_def)
          qed
          then show ?thesis using c by (intro untouched)
        qed
        ultimately show ?thesis unfolding trie_vals_ok_rec [of stage ?M n'] by blast
      next
        case km: False
        then have kne: "keys current ! idx \<noteq> key" using at_keys by simp
        have descend: ?thesis
          if n': "n' = HNode (mask current) (keys current) (vals current)
                        ((nexts current)[idx := Some child])"
            and tv: "trie_vals_ok (Suc stage) ?M child"
            and ak: "set (allKeys child) \<subseteq> insert key (set (childKeys current idx))"
          for child
        proof -
          have ixl: "idx < length (nexts current)" using lt lens by simp
          have "vals_ok ?M n'"
            unfolding vals_ok_alt
          proof (intro allI impI)
            fix j assume j: "j < 32" "bit (mask n') j"
            then have bj: "bit (mask current) j" by (simp add: n')
            have kj: "keys current ! countAbove (mask current) j \<noteq> key"
              using other [OF j(1) bj] kne by (cases "j = i") (simp_all add: idx_def)
            show "vals n' ! countAbove (mask n') j = ?M (keys n' ! countAbove (mask n') j)
              \<and> keys n' ! countAbove (mask n') j \<notin> set (childKeys n' (countAbove (mask n') j))"
            proof (cases "j = i")
              case True
              then show ?thesis
                using slot(3,4) [OF j(1) bj] kj ak ixl
                by (auto simp: n' childKeys_def idx_def [symmetric])
            next
              case ne: False
              then have "countAbove (mask current) j \<noteq> idx" using same [OF j(1) bj] by simp
              then show ?thesis
                using slot(3,4) [OF j(1) bj] kj
                by (simp add: n' childKeys_def)
            qed
          qed
          moreover have "trie_vals_ok (Suc stage) ?M c" if "Some c \<in> set (nexts n')" for c
          proof (cases "c = child")
            case True
            then show ?thesis using tv by simp
          next
            case False
            from that obtain p where p: "p < length (nexts current)"
              "(nexts current)[idx := Some child] ! p = Some c"
              unfolding n' by (auto simp: in_set_conv_nth)
            then have pi: "p \<noteq> idx" using False by auto
            then have pc: "nexts current ! p = Some c" using p by simp
            have "key \<notin> set (allKeys c)"
              using pi by (intro other_child_pos [OF sok p(1) pc h]) (simp add: idx_def)
            moreover have "Some c \<in> set (nexts current)" using p(1) pc by (metis nth_mem)
            ultimately show ?thesis by (intro untouched)
          qed
          ultimately show ?thesis unfolding trie_vals_ok_rec [of stage ?M n'] by blast
        qed
        show ?thesis
        proof (cases "nextRef current (int idx)")
          case Undefined
          then show ?thesis using "1.prems"(1) bt km by (simp add: fs)
        next
          case Null
          from "1.prems"(1) bt km Null obtain child where
            c: "f key value hash (stage + 1) emptyNode = Inr (child, b)"
            and n': "n' = HNode (mask current) (keys current) (vals current)
                        ((nexts current)[idx := Some child])"
            by (auto simp: fs split: sum.splits)
          have tv: "trie_vals_ok (stage + 1) ?M child"
            by (rule IH(1) [OF _ _ _ c "1.prems"(2) trie_ok_emptyNode trie_vals_ok_emptyNode])
              (use bt km Null in \<open>simp_all add: cb\<close>)
          have "set (allKeys child) \<subseteq> insert key (set (allKeys (emptyNode :: 'a hamt_node)))"
            using c by (rule f_allKeys)
          then have ak: "set (allKeys child) \<subseteq> insert key (set (childKeys current idx))"
            by (auto simp: emptyNode_def)
          show ?thesis using descend [OF n' _ ak] tv by simp
        next
          case (Ref n)
          from "1.prems"(1) bt km Ref obtain child where
            c: "f key value hash (stage + 1) n = Inr (child, b)"
            and n': "n' = HNode (mask current) (keys current) (vals current)
                        ((nexts current)[idx := Some child])"
            by (auto simp: fs split: sum.splits)
          have nx: "idx < length (nexts current)" "nexts current ! idx = Some n"
            using nextRef_cases(2) [OF Ref] by simp_all
          then have mem: "Some n \<in> set (nexts current)" by (metis nth_mem)
          have tv: "trie_vals_ok (stage + 1) ?M child"
            by (rule IH(2) [OF _ _ _ c "1.prems"(2)])
              (use cok [OF mem] cvok [OF mem] bt km Ref in \<open>simp_all add: cb\<close>)
          have "set (allKeys child) \<subseteq> insert key (set (allKeys n))"
            using c by (rule f_allKeys)
          then have ak: "set (allKeys child) \<subseteq> insert key (set (childKeys current idx))"
            using nx by (simp add: childKeys_def)
          show ?thesis using descend [OF n' _ ak] tv by simp
        qed
      qed
    qed
  qed
qed

lemma latest_snoc: "latest (kvs @ [(k, v)]) = (latest kvs)(k \<mapsto> v)"
  by (simp add: latest_def)

lemma hamt_set_vals_ok:
  "hamt_set h k v = Inr h' \<Longrightarrow> trie_ok 0 (hamt_root h) \<Longrightarrow> trie_vals_ok 0 M (hamt_root h) \<Longrightarrow>
   trie_vals_ok 0 (M(k \<mapsto> v)) (hamt_root h')"
  by (auto simp: hamt_set_def split: sum.splits dest: f_vals_ok)

lemma hamt_setAll_vals_ok:
  "hamt_setAll h kvs = Inr h' \<Longrightarrow> trie_ok 0 (hamt_root h) \<Longrightarrow>
   trie_vals_ok 0 (latest earlier) (hamt_root h) \<Longrightarrow>
   trie_vals_ok 0 (latest (earlier @ kvs)) (hamt_root h')"
proof (induction kvs arbitrary: h earlier)
  case Nil then show ?case by simp
next
  case (Cons kv kvs)
  obtain k v where kv: "kv = (k, v)" by (cases kv)
  from Cons.prems(1) obtain h1 where 1: "hamt_set h k v = Inr h1" and 2: "hamt_setAll h1 kvs = Inr h'"
    by (auto simp: kv split: sum.splits)
  have "trie_vals_ok 0 (latest (earlier @ [(k, v)])) (hamt_root h1)"
    unfolding latest_snoc using 1 Cons.prems(2,3) by (rule hamt_set_vals_ok)
  then have "trie_vals_ok 0 (latest ((earlier @ [(k, v)]) @ kvs)) (hamt_root h')"
    using Cons.IH [OF 2 hamt_set_trie_ok [OF 1 Cons.prems(2)]] by blast
  then show ?case by (simp add: kv)
qed

lemma get_loop_step:
  assumes "getNthPrefix hash s = Some i" and "i < 32"
  shows "get_loop key hash s (Ref n) =
     (if bit (mask n) i then
        if at (keys n) (int (countAbove (mask n) i)) = Some key
        then Inr (Option.bind (at (vals n) (int (countAbove (mask n) i))) id)
        else get_loop key hash (s + 1) (nextRef n (int (countAbove (mask n) i)))
      else Inr None)"
  by (subst get_loop.simps(3))
    (simp add: assms(1) checkBit_Some [OF assms(2)] childIndexOf_Some [OF assms(2)] Let_def)

lemma f_step:
  assumes "getNthPrefix hash s = Some i" and "i < 32"
  shows "f key value hash s n =
     (if bit (mask n) i then
        if at (keys n) (int (countAbove (mask n) i)) = Some key
        then Inr (HNode (mask n) (keys n)
                    (store None (vals n) (int (countAbove (mask n) i)) (Some value))
                    (nexts n), False)
        else (case nextRef n (int (countAbove (mask n) i)) of
                Undefined \<Rightarrow> Inl BadChildIndex
              | Null \<Rightarrow>
                  (case f key value hash (s + 1) emptyNode of
                     Inl e \<Rightarrow> Inl e
                   | Inr (child, isNewKey) \<Rightarrow>
                       Inr (HNode (mask n) (keys n) (vals n)
                              ((nexts n)[countAbove (mask n) i := Some child]), isNewKey))
              | Ref c \<Rightarrow>
                  (case f key value hash (s + 1) c of
                     Inl e \<Rightarrow> Inl e
                   | Inr (child, isNewKey) \<Rightarrow>
                       Inr (HNode (mask n) (keys n) (vals n)
                              ((nexts n)[countAbove (mask n) i := Some child]), isNewKey)))
      else Inr (HNode (setBit (mask n) (Some i))
                  (copyInsert key (int (countAbove (mask n) i)) (keys n))
                  (copyInsert (Some value) (int (countAbove (mask n) i)) (vals n))
                  (copyInsert None (int (countAbove (mask n) i)) (nexts n)), True))"
  by (subst f.simps)
    (simp add: assms(1) checkBit_Some [OF assms(2)] childIndexOf_Some [OF assms(2)] Let_def
      cong: ref.case_cong sum.case_cong)

lemma get_at_slot:
  assumes sok: "slot_ok s n" and i: "i < 32" "bit (mask n) i"
  shows "get_loop (keys n ! countAbove (mask n) i)
           (hashString (keys n ! countAbove (mask n) i)) s (Ref n)
         = Inr (vals n ! countAbove (mask n) i)"
proof -
  define idx where "idx = countAbove (mask n) i"
  have lt: "idx < countAll (mask n)" unfolding idx_def using i by (rule countAbove_lt_countAll)
  have h: "getNthPrefix (hashString (keys n ! idx)) s = Some i"
    using sok i by (simp add: slot_ok_alt idx_def)
  have a: "at (keys n) (int idx) = Some (keys n ! idx)"
    "at (vals n) (int idx) = Some (vals n ! idx)"
    using sok lt by (simp_all add: slot_ok_alt at_def)
  have "get_loop (keys n ! idx) (hashString (keys n ! idx)) s (Ref n)
        = (if bit (mask n) i then
             if at (keys n) (int idx) = Some (keys n ! idx)
             then Inr (Option.bind (at (vals n) (int idx)) id)
             else get_loop (keys n ! idx) (hashString (keys n ! idx)) (s + 1)
                    (nextRef n (int idx))
           else Inr None)"
    unfolding idx_def by (rule get_loop_step [OF h [unfolded idx_def] i(1)])
  also have "\<dots> = Inr (vals n ! idx)" using i(2) a by simp
  finally show ?thesis by (simp only: idx_def)
qed

text \<open>
  C5, amended. In every trie built from a new one by \<open>set\<close> calls, every node at
  a stage from 0 to 5 has one entry in each of its three arrays per set bit of its mask.
  For every set bit \<open>i\<close> the entry of slot \<open>i\<close> is at the array index equal to the
  number of set bits of the mask strictly above bit \<open>i\<close>: the key there has the hash
  index \<open>i\<close> at that stage, the value there is the value last set for that key, the
  child there holds the other keys with that hash index (and not that key again), and
  \<open>get\<close>, run at that node and stage for that key, returns the value at that index.
  For every hash index (as every stage from 0 to 5 yields one) \<open>get\<close> and \<open>set\<close>
  compute the array position as that count: \<open>get\<close> compares the key, reads the value
  and follows the child at that index, and \<open>set\<close> overwrites the value, replaces the
  child or inserts the new entry at that index.
\<close>

theorem slot_positions_count_bits_above:
  assumes "hamt_setAll hamt_new kvs = Inr h"
  shows "(\<forall>(s, n) \<in> set (nodesAt 0 (hamt_root h)). s \<le> 5 \<longrightarrow>
            slot_ok s n \<and> vals_ok (latest kvs) n
            \<and> (\<forall>i<32. bit (mask n) i \<longrightarrow>
                  get_loop (keys n ! countAbove (mask n) i)
                    (hashString (keys n ! countAbove (mask n) i)) s (Ref n)
                  = Inr (vals n ! countAbove (mask n) i)))
       \<and> (\<forall>m. \<forall>i<32. childIndexOf m (Some i) = int (countAbove m i))
       \<and> (\<forall>hash. \<forall>s\<le>5. \<exists>i<32. getNthPrefix hash s = Some i)
       \<and> (\<forall>key hash s n i. getNthPrefix hash s = Some i \<and> i < 32 \<longrightarrow>
            get_loop key hash s (Ref n) =
              (if bit (mask n) i then
                 if at (keys n) (int (countAbove (mask n) i)) = Some key
                 then Inr (Option.bind (at (vals n) (int (countAbove (mask n) i))) id)
                 else get_loop key hash (s + 1) (nextRef n (int (countAbove (mask n) i)))
               else Inr None))
       \<and> (\<forall>key value hash s n i. getNthPrefix hash s = Some i \<and> i < 32 \<longrightarrow>
            f key value hash s n =
              (if bit (mask n) i then
                 if at (keys n) (int (countAbove (mask n) i)) = Some key
                 then Inr (HNode (mask n) (keys n)
                             (store None (vals n) (int (countAbove (mask n) i)) (Some value))
                             (nexts n), False)
                 else (case nextRef n (int (countAbove (mask n) i)) of
                         Undefined \<Rightarrow> Inl BadChildIndex
                       | Null \<Rightarrow>
                           (case f key value hash (s + 1) emptyNode of
                              Inl e \<Rightarrow> Inl e
                            | Inr (child, isNewKey) \<Rightarrow>
                                Inr (HNode (mask n) (keys n) (vals n)
                                       ((nexts n)[countAbove (mask n) i := Some child]),
                                     isNewKey))
                       | Ref c \<Rightarrow>
                           (case f key value hash (s + 1) c of
                              Inl e \<Rightarrow> Inl e
                            | Inr (child, isNewKey) \<Rightarrow>
                                Inr (HNode (mask n) (keys n) (vals n)
                                       ((nexts n)[countAbove (mask n) i := Some child]),
                                     isNewKey)))
               else Inr (HNode (setBit (mask n) (Some i))
                           (copyInsert key (int (countAbove (mask n) i)) (keys n))
                           (copyInsert (Some value) (int (countAbove (mask n) i)) (vals n))
                           (copyInsert None (int (countAbove (mask n) i)) (nexts n)), True)))"
proof -
  have t0: "trie_ok 0 (hamt_root (hamt_new :: 'a HAMT))"
    by (simp add: hamt_new_def trie_ok_emptyNode)
  have v0: "trie_vals_ok 0 (latest []) (hamt_root (hamt_new :: 'a HAMT))"
    by (simp add: hamt_new_def trie_vals_ok_emptyNode)
  have t: "trie_ok 0 (hamt_root h)" using assms t0 hamt_setAll_trie_ok by blast
  have v: "trie_vals_ok 0 (latest kvs) (hamt_root h)"
    using hamt_setAll_vals_ok [OF assms t0 v0] by simp
  have 1: "\<forall>(s, n) \<in> set (nodesAt 0 (hamt_root h)). s \<le> 5 \<longrightarrow>
            slot_ok s n \<and> vals_ok (latest kvs) n
            \<and> (\<forall>i<32. bit (mask n) i \<longrightarrow>
                  get_loop (keys n ! countAbove (mask n) i)
                    (hashString (keys n ! countAbove (mask n) i)) s (Ref n)
                  = Inr (vals n ! countAbove (mask n) i))"
  proof (intro ballI, clarify)
    fix s n assume mem: "(s, n) \<in> set (nodesAt 0 (hamt_root h))" and s: "s \<le> 5"
    have sok: "slot_ok s n" using t mem s by (auto simp: trie_ok_def)
    have vok: "vals_ok (latest kvs) n" using v mem s by (auto simp: trie_vals_ok_def)
    show "slot_ok s n \<and> vals_ok (latest kvs) n
            \<and> (\<forall>i<32. bit (mask n) i \<longrightarrow>
                  get_loop (keys n ! countAbove (mask n) i)
                    (hashString (keys n ! countAbove (mask n) i)) s (Ref n)
                  = Inr (vals n ! countAbove (mask n) i))"
      using sok vok get_at_slot [OF sok] by blast
  qed
  have 2: "\<forall>m. \<forall>i<32. childIndexOf m (Some i) = int (countAbove m i)"
    using childIndexOf_Some by blast
  have 3: "\<forall>hash. \<forall>s\<le>5. \<exists>i<32. getNthPrefix hash s = Some i"
    using getNthPrefix_Some by blast
  show ?thesis
  proof (intro conjI)
    show "\<forall>(s, n) \<in> set (nodesAt 0 (hamt_root h)). s \<le> 5 \<longrightarrow>
            slot_ok s n \<and> vals_ok (latest kvs) n
            \<and> (\<forall>i<32. bit (mask n) i \<longrightarrow>
                  get_loop (keys n ! countAbove (mask n) i)
                    (hashString (keys n ! countAbove (mask n) i)) s (Ref n)
                  = Inr (vals n ! countAbove (mask n) i))"
      by (rule 1)
    show "\<forall>m. \<forall>i<32. childIndexOf m (Some i) = int (countAbove m i)" by (rule 2)
    show "\<forall>hash. \<forall>s\<le>5. \<exists>i<32. getNthPrefix hash s = Some i" by (rule 3)
  qed ((intro allI impI, elim conjE, rule get_loop_step f_step, assumption+)+)
qed

theorem slot_positions_count_bits_above_witness:
  "hamt_setAll hamt_new [([97], 0::nat), ([98], 1), ([98], 2)]
     = Inr \<lparr>hamt_root = HNode 6 [[98], [97]] [Some 2, Some 0] [None, None], hamt_size = 2\<rparr>
   \<and> slot_ok 0 (HNode 6 [[98], [97]] [Some (2::nat), Some 0] [None, None])
   \<and> vals_ok (latest [([97], 0::nat), ([98], 1), ([98], 2)])
        (HNode 6 [[98], [97]] [Some 2, Some 0] [None, None])
   \<and> latest [([97], 0::nat), ([98], 1), ([98], 2)] [98] = Some 2
   \<and> countAbove 6 2 = 0
   \<and> get_loop [98] (hashString [98]) 0 (Ref (HNode 6 [[98], [97]] [Some (2::nat), Some 0] [None, None]))
       = Inr (Some 2)
   \<and> childIndexOf 6 (Some 2) = int (countAbove 6 2)"
proof -
  let ?R = "HNode 6 [[98], [97]] [Some (2::nat), Some 0] [None, None]"
  have 1: "hamt_setAll hamt_new [([97], 0::nat), ([98], 1), ([98], 2)]
     = Inr \<lparr>hamt_root = ?R, hamt_size = 2\<rparr>"
    by code_simp
  note T = slot_positions_count_bits_above [OF 1]
  have mem: "(0, ?R) \<in> set (nodesAt 0 (hamt_root \<lparr>hamt_root = ?R, hamt_size = 2\<rparr>))"
    by simp
  have A: "slot_ok 0 ?R \<and> vals_ok (latest [([97], 0::nat), ([98], 1), ([98], 2)]) ?R
           \<and> (\<forall>i<32. bit (mask ?R) i \<longrightarrow>
                 get_loop (keys ?R ! countAbove (mask ?R) i)
                   (hashString (keys ?R ! countAbove (mask ?R) i)) 0 (Ref ?R)
                 = Inr (vals ?R ! countAbove (mask ?R) i))"
    using T [THEN conjunct1, THEN bspec, OF mem] by blast
  have b: "bit (mask ?R) 2" by simp
  have c: "countAbove 6 2 = 0" by code_simp
  have g: "get_loop [98] (hashString [98]) 0 (Ref ?R) = Inr (Some 2)"
    using A [THEN conjunct2, THEN conjunct2, rule_format, of 2, OF _ b] by (simp only: hamt_node.sel c nth_Cons_0)
  have l: "latest [([97], 0::nat), ([98], 1), ([98], 2)] [98] = Some 2"
    by (simp add: latest_def)
  have ci: "childIndexOf 6 (Some 2) = int (countAbove 6 2)"
    using T [THEN conjunct2, THEN conjunct1, rule_format, of 2 6] by simp
  note sok = A [THEN conjunct1] and vok = A [THEN conjunct2, THEN conjunct1]
  show ?thesis
    by (intro conjI) (rule 1 sok vok l c g ci)+
qed

text \<open>
  C5 as stated fails. After \<open>set("a", 0)\<close> and \<open>set("b", 1)\<close> the root has the
  mask 6 (bits 1 and 2). The key \<open>"b"\<close> has the hash index 2; one set bit of the mask
  lies strictly below bit 2, but \<open>"b"\<close> is stored at index 0, which is the number of
  set bits strictly above bit 2 and the position \<open>get\<close> and \<open>set\<close> compute.
\<close>

theorem slot_position_below_counterexample:
  "hamt_setAll hamt_new [([97], 0::nat), ([98], 1)]
     = Inr \<lparr>hamt_root = HNode 6 [[98], [97]] [Some 1, Some 0] [None, None], hamt_size = 2\<rparr>
   \<and> getNthPrefix (hashString [98]) 0 = Some 2
   \<and> bit (6 :: 32 word) 2
   \<and> countBelow 6 2 = 1
   \<and> [[98], [97 :: 16 word]] ! 1 = [97]
   \<and> [[98], [97 :: 16 word]] ! 0 = [98]
   \<and> countAbove 6 2 = 0
   \<and> childIndexOf 6 (Some 2) = 0"
  by code_simp

section \<open>Properties of the trees\<close>

subsection \<open>The traversals\<close>

lemma entriesLoop_inorder:
  "Leaf \<notin> set stack \<Longrightarrow> entriesLoop c stack = inorder c @ concat (map rest stack)"
  by (induction c stack rule: entriesLoop.induct) auto

lemma entries_inorder: "entries s = inorder (rb_root s)"
  by (simp add: entries_def entriesLoop_inorder)

lemma descend_absent:
  "\<forall>kv \<in> set (inorder t). cmp key (fst kv) \<noteq> EQ \<Longrightarrow> snd (descend cmp key fs t) = Leaf"
  by (induction cmp key fs t rule: descend.induct) (auto split: Ordering.splits)

lemma rb_find_absent:
  "\<forall>kv \<in> set (inorder t). cmp key (fst kv) \<noteq> EQ \<Longrightarrow> rb_find cmp key t = None"
  using descend_absent [of t cmp key "[]"]
  by (cases "descend cmp key [] t") (auto simp: rb_find_def)

text \<open>C9. A key that compares \<open>EQ\<close> with no stored key is absent: \<open>get\<close> returns
  \<open>undefined\<close> (here \<open>None\<close>) and does not throw, and \<open>delete\<close> returns \<open>false\<close> and the
  very state it was given, so that the size, the entries and every later \<open>get\<close> are
  unchanged. This holds in whatever state the tree is, for \<open>RBTree\<close> (no annotation,
  any comparator) and for \<open>IntervalTree\<close> (the hook \<open>updateNodeMax\<close>, the comparator
  \<open>compareFn\<close>).\<close>

theorem absent_key_get_and_delete:
  assumes "\<forall>kv \<in> set (entries s). cmp k (fst kv) \<noteq> EQ"
  shows "rb_get cmp s k = None \<and> rb_has cmp s k = False
         \<and> rb_delete upd cmp s k = Inr (False, s)"
  using rb_find_absent [of "rb_root s" cmp k] assms
  by (simp add: entries_inorder rb_get_def rb_has_def rb_delete_def)

theorem absent_key_get_and_delete_witness:
  "entries oneToFive = [(1, 2), (2, 3), (3, 4), (4, 5), (5, 6)]
   \<and> rb_get defaultCompareFunction oneToFive 7 = None
   \<and> rb_delete noHook defaultCompareFunction oneToFive 7 = Inr (False, oneToFive)
   \<and> entries fooBar = [((0, 10), ''foo''), ((5, 20), ''bar'')]
   \<and> rb_get compareFn fooBar (0, 9) = None
   \<and> rb_delete updateNodeMax compareFn fooBar (0, 9) = Inr (False, fooBar)"
  using absent_key_get_and_delete [of oneToFive defaultCompareFunction 7 noHook]
    absent_key_get_and_delete [of fooBar compareFn "(0, 9)" updateNodeMax]
  by (simp add: entries_inorder oneToFive_def fooBar_def defaultCompareFunction_def compareFn_def)

text \<open>C8. \<open>checkOrderInvariant\<close> tests its bounds with \<open>!min\<close> and \<open>!max\<close>, so a bound
  that is a falsy key is no bound at all. With number keys and the default comparator,
  the tree whose root has key 0 and whose left child has key 5 passes the check, although
  5 is not below the bound 0 inherited from the root.\<close>

theorem checkOrderInvariant_ignores_falsy_bound:
  "checkOrderInvariant truthyNumber defaultCompareFunction zeroRoot = True
   \<and> keysWithin defaultCompareFunction (rb_root zeroRoot) None None = False"
  by (simp add: checkOrderInvariant_def zeroRoot_def noBound_def truthyNumber_def
      defaultCompareFunction_def)

text \<open>Where every key is truthy, the check is the one described.\<close>

lemma traverse_keysWithin:
  "\<forall>kv \<in> set (inorder t). truthy (fst kv) \<Longrightarrow>
   (case mn of None \<Rightarrow> True | Some b \<Rightarrow> truthy b) \<Longrightarrow>
   (case mx of None \<Rightarrow> True | Some b \<Rightarrow> truthy b) \<Longrightarrow>
   traverse truthy cmp t mn mx = keysWithin cmp t mn mx"
  by (induction t arbitrary: mn mx) (auto simp: noBound_def split: option.splits)

lemma checkOrderInvariant_truthy:
  "\<forall>kv \<in> set (entries s). truthy (fst kv) \<Longrightarrow>
   checkOrderInvariant truthy cmp s = keysWithin cmp (rb_root s) None None"
  by (simp add: checkOrderInvariant_def entries_inorder traverse_keysWithin)

subsection \<open>Frames\<close>

lemma inorder_up:
  "inorder (up fr t) =
     (if fdir fr = L then inorder t @ (fkey fr, fval fr) # inorder (fsib fr)
      else inorder (fsib fr) @ (fkey fr, fval fr) # inorder t)"
  by (cases fr; cases "fdir fr") auto

lemma inorder_plug: "inorder (plug fs t) = before fs @ inorder t @ after fs"
  by (induction fs arbitrary: t) (auto simp: inorder_up)

lemma inorder_paint [simp]: "inorder (paint c t) = inorder t"
  by (cases t) auto

lemma inorder_refresh [simp]: "inorder (refresh upd t) = inorder t"
  by (cases t) auto

lemma bheight_up:
  "bheight (fsib fr) = bheight t \<Longrightarrow>
   bheight (up fr t) = (if fcolor fr = Black then Suc (bheight t) else bheight t)"
  by (cases fr; cases "fdir fr") auto

lemma invh_up:
  "invh (up fr t) = (invh t \<and> invh (fsib fr) \<and> bheight t = bheight (fsib fr))"
  by (cases fr; cases "fdir fr") auto

lemma invc_up:
  "invc (up fr t) =
     (invc t \<and> invc (fsib fr)
      \<and> (fcolor fr = Black \<or> (color_of t = Black \<and> color_of (fsib fr) = Black)))"
  by (cases fr; cases "fdir fr") auto

lemma plug_rbinv:
  "ctx_ok fs (bheight t) \<Longrightarrow> invc t \<Longrightarrow> invh t \<Longrightarrow> fits fs t \<Longrightarrow> rbinv (plug fs t)"
proof (induction fs arbitrary: t)
  case Nil
  then show ?case by (simp add: rbinv_def fits_def)
next
  case (Cons fr fs)
  have "rbinv (plug fs (up fr t))"
  proof (rule Cons.IH)
    show "ctx_ok fs (bheight (up fr t))" using Cons.prems by (simp add: bheight_up)
    show "invc (up fr t)" using Cons.prems by (auto simp: invc_up fits_def)
    show "invh (up fr t)" using Cons.prems by (simp add: invh_up)
    show "fits fs (up fr t)" using Cons.prems
      by (cases fs) (auto simp: fits_def color_of_up)
  qed
  then show ?case by simp
qed

subsection \<open>The descent\<close>

lemma descend_plug:
  "descend cmp key fs t = (fs', t') \<Longrightarrow> plug fs' t' = plug fs t"
  by (induction cmp key fs t rule: descend.induct) (auto split: Ordering.splits)

lemma descend_found:
  "descend cmp key fs t = (fs', Node c l k v a r) \<Longrightarrow> cmp key k = EQ"
  by (induction cmp key fs t rule: descend.induct) (auto split: Ordering.splits)

lemma ascending_append:
  "ascending cmp (xs @ ys) =
     (ascending cmp xs \<and> ascending cmp ys
      \<and> (\<forall>x \<in> set xs. \<forall>y \<in> set ys. cmp (fst x) (fst y) = LT))"
  by (simp add: ascending_def sorted_wrt_append)

lemma ascending_Cons:
  "ascending cmp (x # ys) = (ascending cmp ys \<and> (\<forall>y \<in> set ys. cmp (fst x) (fst y) = LT))"
  by (auto simp: ascending_def)

lemma ascending_Nil [simp]: "ascending cmp []"
  by (simp add: ascending_def)

lemma lawful_GT: "lawful cmp \<Longrightarrow> (cmp a b = GT) = (cmp b a = LT)"
  unfolding lawful_def by blast

lemma lawful_trans: "lawful cmp \<Longrightarrow> cmp a b = LT \<Longrightarrow> cmp b c = LT \<Longrightarrow> cmp a c = LT"
  unfolding lawful_def by blast

lemma lawful_sym: "lawful cmp \<Longrightarrow> cmp a b = EQ \<Longrightarrow> cmp b a = EQ"
  using lawful_GT [of cmp a b] lawful_GT [of cmp b a] by (cases "cmp b a") auto

lemma lawful_LT_EQ: "lawful cmp \<Longrightarrow> cmp a b = LT \<Longrightarrow> cmp c b = EQ \<Longrightarrow> cmp a c = LT"
  using lawful_sym [of cmp c b] unfolding lawful_def by blast

lemma descend_bounds:
  "descend cmp key fs t = (fs', t') \<Longrightarrow> lawful cmp \<Longrightarrow> ascending cmp (inorder t) \<Longrightarrow>
    \<forall>x \<in> set (before fs). cmp (fst x) key = LT \<Longrightarrow>
    \<forall>x \<in> set (after fs). cmp key (fst x) = LT \<Longrightarrow>
    (\<forall>x \<in> set (before fs'). cmp (fst x) key = LT) \<and> (\<forall>x \<in> set (after fs'). cmp key (fst x) = LT)"
proof (induction cmp key fs t rule: descend.induct)
  case (1 cmp key fs)
  then show ?case by simp
next
  case (2 cmp key fs c l k v a r)
  note d = "2.prems"(1) and law = "2.prems"(2) and asc = "2.prems"(3)
    and bf = "2.prems"(4) and af = "2.prems"(5)
  have al: "ascending cmp (inorder l)" and ar: "ascending cmp (inorder r)"
    and lk: "\<forall>x \<in> set (inorder l). cmp (fst x) k = LT"
    and kr: "\<forall>x \<in> set (inorder r). cmp k (fst x) = LT"
    using asc by (auto simp: ascending_append ascending_Cons)
  show ?case
  proof (cases "cmp key k")
    case LT
    have r: "cmp key (fst x) = LT" if "x \<in> set (inorder r)" for x
      using lawful_trans [OF law LT, of "fst x"] kr that by blast
    show ?thesis
    proof (rule "2.IH"(1) [OF LT _ law al])
      show "descend cmp key (Frame L c k v a r # fs) l = (fs', t')" using d LT by simp
      show "\<forall>x \<in> set (before (Frame L c k v a r # fs)). cmp (fst x) key = LT"
        using bf by simp
      show "\<forall>x \<in> set (after (Frame L c k v a r # fs)). cmp key (fst x) = LT"
        using af LT r by auto
    qed
  next
    case GT
    then have kk: "cmp k key = LT" using law by (simp add: lawful_GT)
    have l: "cmp (fst x) key = LT" if "x \<in> set (inorder l)" for x
      using lawful_trans [OF law _ kk, of "fst x"] lk that by blast
    show ?thesis
    proof (rule "2.IH"(2) [OF GT _ law ar])
      show "descend cmp key (Frame R c k v a l # fs) r = (fs', t')" using d GT by simp
      show "\<forall>x \<in> set (before (Frame R c k v a l # fs)). cmp (fst x) key = LT"
        using bf kk l by auto
      show "\<forall>x \<in> set (after (Frame R c k v a l # fs)). cmp key (fst x) = LT"
        using af by simp
    qed
  next
    case EQ
    then show ?thesis using d bf af by simp
  qed
qed

lemma descend_ctx:
  "descend cmp key fs t = (fs', t') \<Longrightarrow>
   ctx_ok fs (bheight t) \<Longrightarrow> invc t \<Longrightarrow> invh t \<Longrightarrow> fits fs t \<Longrightarrow>
   ctx_ok fs' (bheight t') \<and> invc t' \<and> invh t' \<and> fits fs' t'"
proof (induction cmp key fs t rule: descend.induct)
  case (1 cmp key fs)
  then show ?case by simp
next
  case (2 cmp key fs c l k v a r)
  note d = "2.prems"(1) and ctx = "2.prems"(2) and ic = "2.prems"(3) and ih = "2.prems"(4)
    and ft = "2.prems"(5)
  have cb: "c = Red \<Longrightarrow> fs \<noteq> [] \<and> fcolor (hd fs) = Black"
    using ft by (cases fs) (auto simp: fits_def)
  have cx: "ctx_ok fs (if c = Black then Suc (bheight l) else bheight l)"
    using ctx by simp
  show ?case
  proof (cases "cmp key k")
    case LT
    show ?thesis
    proof (rule "2.IH"(1) [OF LT])
      show "descend cmp key (Frame L c k v a r # fs) l = (fs', t')" using d LT by simp
      show "ctx_ok (Frame L c k v a r # fs) (bheight l)"
        using cx ic ih cb by (cases c) simp_all
      show "invc l" "invh l" using ic ih by simp_all
      show "fits (Frame L c k v a r # fs) l" using ic by (auto simp: fits_def)
    qed
  next
    case GT
    show ?thesis
    proof (rule "2.IH"(2) [OF GT])
      show "descend cmp key (Frame R c k v a l # fs) r = (fs', t')" using d GT by simp
      show "ctx_ok (Frame R c k v a l # fs) (bheight r)"
        using cx ic ih cb by (cases c) simp_all
      show "invc r" "invh r" using ic ih by simp_all
      show "fits (Frame R c k v a l # fs) r" using ic by (auto simp: fits_def)
    qed
  next
    case EQ
    then show ?thesis using "2.prems" by simp
  qed
qed

subsection \<open>\<open>insertFixup\<close> restores the red-black invariants\<close>

lemma frame_sel_set [simp]:
  "fdir (setColor c fr) = fdir fr" "fcolor (setColor c fr) = c" "fkey (setColor c fr) = fkey fr"
  "fval (setColor c fr) = fval fr" "fsib (setColor c fr) = fsib fr"
  "fdir (setSib s fr) = fdir fr" "fcolor (setSib s fr) = fcolor fr" "fkey (setSib s fr) = fkey fr"
  "fval (setSib s fr) = fval fr" "fsib (setSib s fr) = s"
  by (simp_all add: setColor_def setSib_def)

lemma frame_set_Frame [simp]:
  "setColor c (Frame d c' k v a s) = Frame d c k v a s"
  "setSib s' (Frame d c' k v a s) = Frame d c' k v a s'"
  by (simp_all add: setColor_def setSib_def)

lemma paint_props [simp]:
  "invh (paint c t) = invh t"
  "bheight (paint Black t) = (if color_of t = Red then Suc (bheight t) else bheight t)"
  "invc t \<Longrightarrow> invc (paint Black t)"
  "color_of (paint Black t) = Black"
  by (cases t; cases "color_of t"; auto)+

lemma paint_Black_id: "color_of t = Black \<Longrightarrow> paint Black t = t"
  by (cases t) auto

lemma rbinv_paint: "rbinv T \<Longrightarrow> rbinv (paint Black T)"
  by (simp add: rbinv_def paint_Black_id)

lemma insertFixup_black:
  "fcolor p = Black \<Longrightarrow> insertFixup upd (p # fs) t np = Inr (paint Black (plug (p # fs) t), np)"
  by (cases fs) auto

lemma plug_up_inorder:
  "before fs @ inorder (up fr t) @ after fs = before (fr # fs) @ inorder t @ after (fr # fs)"
  by (simp add: inorder_up)

lemma red_node:
  "color_of t = Red \<Longrightarrow> invc t \<Longrightarrow>
   \<exists>l k v a r. t = Node Red l k v a r \<and> color_of l = Black \<and> color_of r = Black
     \<and> invc l \<and> invc r"
  by (cases t) auto

lemma insertFixup_ok:
  "ctx_ok fs (bheight t) \<Longrightarrow> invc t \<Longrightarrow> invh t \<Longrightarrow> color_of t = Red \<Longrightarrow>
   \<exists>T np'. insertFixup upd fs t np = Inr (T, np') \<and> rbinv T
     \<and> inorder T = before fs @ inorder t @ after fs"
proof (induction "length fs" arbitrary: fs t np rule: less_induct)
  case less
  note ctx = less.prems(1) and ic = less.prems(2) and ih = less.prems(3) and red = less.prems(4)
  from red_node [OF red ic] obtain tl tk tv ta tr where
    t: "t = Node Red tl tk tv ta tr" and tlb: "color_of tl = Black" and trb: "color_of tr = Black"
    and itl: "invc tl" and itr: "invc tr" by blast
  have black_parent: ?case if fs: "fs = p # fs'" and pb: "fcolor p = Black" for p fs'
  proof -
    have "rbinv (plug fs t)"
      using ctx ic ih pb by (intro plug_rbinv) (auto simp: fs fits_def)
    then show ?thesis
      using pb by (simp add: fs insertFixup_black rbinv_paint inorder_plug inorder_up)
  qed
  show ?case
  proof (cases fs)
    case Nil
    then show ?thesis using ic ih by (simp add: rbinv_def)
  next
    case (Cons p fs')
    show ?thesis
    proof (cases "fcolor p")
      case Black
      then show ?thesis using black_parent Cons by blast
    next
      case Red
      then obtain g fs'' where fs': "fs' = g # fs''" and gb: "fcolor g = Black"
        and psb: "color_of (fsib p) = Black"
        using ctx Cons by (cases fs') auto
      obtain pd pk pv pa ps where p: "p = Frame pd Red pk pv pa ps"
        using Red by (cases p) auto
      obtain gd gk gv ga gs where g: "g = Frame gd Black gk gv ga gs"
        using gb by (cases g) auto
      have ips: "invc ps" and hps: "invh ps" and bps: "bheight ps = bheight tl"
        and igs: "invc gs" and hgs: "invh gs" and bgs: "bheight gs = bheight tl"
        and cx: "ctx_ok fs'' (Suc (bheight tl))"
        using ctx by (simp_all add: Cons fs' p g t)
      have htl: "invh tl" and htr: "invh tr" and btr: "bheight tr = bheight tl"
        using ih by (simp_all add: t)
      have psb': "color_of ps = Black" using psb by (simp add: p)
      show ?thesis
      proof (cases "color_of gs")
        case Red
        let ?t' = "up (setSib (paint Black (fsib g)) (setColor Red g)) (up (setColor Black p) t)"
        have step: "insertFixup upd fs t np = insertFixup upd fs'' ?t' np"
          using Red by (simp add: Cons fs' p g)
        have "\<exists>T np'. insertFixup upd fs'' ?t' np = Inr (T, np') \<and> rbinv T
                \<and> inorder T = before fs'' @ inorder ?t' @ after fs''"
        proof (rule less.hyps)
          show "length fs'' < length fs" by (simp add: Cons fs')
          show "ctx_ok fs'' (bheight ?t')"
            using cx Red bps bgs btr by (cases pd; cases gd) (simp_all add: p g t)
          show "invc ?t'"
            using ips igs itl itr tlb trb psb' by (cases pd; cases gd) (simp_all add: p g t)
          show "invh ?t'"
            using hps hgs htl htr bps bgs btr Red by (cases pd; cases gd) (simp_all add: p g t)
          show "color_of ?t' = Red" by (simp add: color_of_up)
        qed
        moreover have "before fs'' @ inorder ?t' @ after fs'' = before fs @ inorder t @ after fs"
          by (cases pd; cases gd) (simp_all add: Cons fs' p g t)
        ultimately show ?thesis by (simp add: step)
      next
        case Black
        have finish: ?thesis
          if "\<exists>np'. insertFixup upd fs t np = Inr (paint Black (plug (p2 # fs'') t2), np')"
            and "fcolor p2 = Black" and "ctx_ok (p2 # fs'') (bheight t2)" and "invc t2" and "invh t2"
            and "before (p2 # fs'') @ inorder t2 @ after (p2 # fs'') = before fs @ inorder t @ after fs"
          for p2 t2
        proof -
          have "rbinv (plug (p2 # fs'') t2)"
            using that(2-5) by (intro plug_rbinv) (auto simp: fits_def)
          then have "rbinv (paint Black (plug (p2 # fs'') t2))" by (rule rbinv_paint)
          moreover have "inorder (paint Black (plug (p2 # fs'') t2)) = before fs @ inorder t @ after fs"
            using that(6) by (simp add: inorder_plug del: plug.simps before.simps after.simps)
          ultimately show ?thesis using that(1) by auto
        qed
        show ?thesis
        proof (cases gd; cases pd)
          assume d: "gd = L" "pd = L"
          let ?G = "refresh upd (Node Red ps gk gv ga gs)"
          show ?thesis
          proof (rule finish [of "Frame L Black pk pv (upd t pk ?G) ?G" t])
            show "\<exists>np'. insertFixup upd fs t np
                    = Inr (paint Black (plug (Frame L Black pk pv (upd t pk ?G) ?G # fs'') t), np')"
              using Black by (simp add: Cons fs' p g t d isChild_def insertFixup_black)
          qed (use cx ic ih ips igs hps hgs bps bgs psb' Black in
                \<open>simp_all add: t Cons fs' p g d\<close>)
        next
          assume d: "gd = L" "pd = R"
          let ?x = "refresh upd (Node Red ps pk pv pa tl)"
          let ?G = "refresh upd (Node Red tr gk gv ga gs)"
          show ?thesis
          proof (rule finish [of "Frame L Black tk tv (upd ?x tk ?G) ?G" ?x])
            show "\<exists>np'. insertFixup upd fs t np
                    = Inr (paint Black (plug (Frame L Black tk tv (upd ?x tk ?G) ?G # fs'') ?x), np')"
              using Black by (simp add: Cons fs' p g t d isChild_def insertFixup_black)
          qed (use cx ic ih ips igs hps hgs bps bgs psb' Black itl itr htl htr btr tlb trb in
                \<open>simp_all add: t Cons fs' p g d\<close>)
        next
          assume d: "gd = R" "pd = L"
          let ?x = "refresh upd (Node Red tr pk pv pa ps)"
          let ?G = "refresh upd (Node Red gs gk gv ga tl)"
          show ?thesis
          proof (rule finish [of "Frame R Black tk tv (upd ?G tk ?x) ?G" ?x])
            show "\<exists>np'. insertFixup upd fs t np
                    = Inr (paint Black (plug (Frame R Black tk tv (upd ?G tk ?x) ?G # fs'') ?x), np')"
              using Black by (simp add: Cons fs' p g t d isChild_def insertFixup_black)
          qed (use cx ic ih ips igs hps hgs bps bgs psb' Black itl itr htl htr btr tlb trb in
                \<open>simp_all add: t Cons fs' p g d\<close>)
        next
          assume d: "gd = R" "pd = R"
          let ?G = "refresh upd (Node Red gs gk gv ga ps)"
          show ?thesis
          proof (rule finish [of "Frame R Black pk pv (upd ?G pk t) ?G" t])
            show "\<exists>np'. insertFixup upd fs t np
                    = Inr (paint Black (plug (Frame R Black pk pv (upd ?G pk t) ?G # fs'') t), np')"
              using Black by (simp add: Cons fs' p g t d isChild_def insertFixup_black)
          qed (use cx ic ih ips igs hps hgs bps bgs psb' Black in
                \<open>simp_all add: t Cons fs' p g d\<close>)
        qed
      qed
    qed
  qed
qed

subsection \<open>Insertion\<close>

lemma updateAlong_props [simp]:
  "inorder (updateAlong upd t np) = inorder t"
  "color_of (updateAlong upd t np) = color_of t"
  "bheight (updateAlong upd t np) = bheight t"
  by (induction upd t np rule: updateAlong.induct) auto

lemma updateAlong_inv [simp]:
  "invh (updateAlong upd t np) = invh t"
  "invc (updateAlong upd t np) = invc t"
  by (induction upd t np rule: updateAlong.induct) auto

lemma rbinv_updateAlong [simp]: "rbinv (updateAlong upd t np) = rbinv t"
  by (simp add: rbinv_def)

lemma descend_attach:
  "descend cmp key fs t = (fs', Leaf) \<Longrightarrow> attach cmp key fs = fs \<Longrightarrow> attach cmp key fs' = fs'"
proof (induction cmp key fs t rule: descend.induct)
  case (1 cmp key fs)
  then show ?case by simp
next
  case (2 cmp key fs c l k v a r)
  show ?case
  proof (cases "cmp key k")
    case LT
    show ?thesis
      by (rule "2.IH"(1) [OF LT]) (use "2.prems" LT in \<open>simp_all add: attach_def\<close>)
  next
    case GT
    show ?thesis
      by (rule "2.IH"(2) [OF GT]) (use "2.prems" GT in \<open>simp_all add: attach_def\<close>)
  next
    case EQ
    then show ?thesis using "2.prems" by simp
  qed
qed

lemma alist_set_new:
  "lawful cmp \<Longrightarrow> \<forall>x \<in> set xs. cmp (fst x) key = LT \<Longrightarrow> \<forall>y \<in> set ys. cmp key (fst y) = LT \<Longrightarrow>
   alist_set cmp key value (xs @ ys) = xs @ (key, value) # ys"
proof (induction xs)
  case Nil
  then show ?case by (cases ys) auto
next
  case (Cons x xs)
  have "cmp key (fst x) = GT" using Cons.prems by (simp add: lawful_GT)
  then show ?case using Cons by (cases x) simp
qed

lemma alist_set_found:
  "lawful cmp \<Longrightarrow> \<forall>x \<in> set xs. cmp (fst x) key = LT \<Longrightarrow> cmp key k = EQ \<Longrightarrow>
   alist_set cmp key value (xs @ (k, v) # ys) = xs @ (k, value) # ys"
proof (induction xs)
  case Nil
  then show ?case by simp
next
  case (Cons x xs)
  have "cmp key (fst x) = GT" using Cons.prems by (simp add: lawful_GT)
  then show ?case using Cons by (cases x) simp
qed

lemma alist_delete_found:
  "lawful cmp \<Longrightarrow> \<forall>x \<in> set xs. cmp (fst x) key = LT \<Longrightarrow> cmp key k = EQ \<Longrightarrow>
   alist_delete cmp key (xs @ (k, v) # ys) = xs @ ys"
proof (induction xs)
  case Nil
  then show ?case by simp
next
  case (Cons x xs)
  have "cmp key (fst x) = GT" using Cons.prems by (simp add: lawful_GT)
  then show ?case using Cons by (cases x) simp
qed

lemma alist_delete_absent:
  "lawful cmp \<Longrightarrow> \<forall>x \<in> set xs. cmp (fst x) key = LT \<Longrightarrow> \<forall>y \<in> set ys. cmp key (fst y) = LT \<Longrightarrow>
   alist_delete cmp key (xs @ ys) = xs @ ys"
proof (induction xs)
  case Nil
  then show ?case by (cases ys) auto
next
  case (Cons x xs)
  have "cmp key (fst x) = GT" using Cons.prems by (simp add: lawful_GT)
  then show ?case using Cons by (cases x) simp
qed

lemma ascending_map_fst:
  "map fst xs = map fst ys \<Longrightarrow> ascending cmp xs = ascending cmp ys"
  by (simp add: ascending_def sorted_wrt_map [of "\<lambda>a b. cmp a b = LT" fst, symmetric])

lemma fits_color: "color_of t' = color_of t \<Longrightarrow> fits fs t' = fits fs t"
  by (cases fs) (simp_all add: fits_def)

text \<open>What the descent from the root of a red-black tree finds, whatever the comparator.\<close>

lemma descend_shape:
  assumes "rbinv root" and "descend cmp key [] root = (fs, t)"
  shows "inorder root = before fs @ inorder t @ after fs"
    and "ctx_ok fs (bheight t)" and "invc t" and "invh t" and "fits fs t"
proof -
  have "plug fs t = root" using descend_plug [OF assms(2)] by simp
  then show "inorder root = before fs @ inorder t @ after fs"
    using inorder_plug [of fs t] by simp
  show "ctx_ok fs (bheight t)" "invc t" "invh t" "fits fs t"
    using descend_ctx [OF assms(2)] assms(1) by (simp_all add: rbinv_def fits_def)
qed

text \<open>With a lawful comparator and ascending keys, the key looked up lies between what is
  before and what is after the place where the descent ends.\<close>

lemma descend_between:
  assumes "lawful cmp" and "ascending cmp (inorder root)"
    and "descend cmp key [] root = (fs, t)"
  shows "\<forall>x \<in> set (before fs). cmp (fst x) key = LT"
    and "\<forall>x \<in> set (after fs). cmp key (fst x) = LT"
  using descend_bounds [OF assms(3) assms(1) assms(2)] by simp_all

lemma descend_left_of_found:
  assumes law: "lawful cmp" and asc: "ascending cmp (inorder root)"
    and d: "descend cmp key [] root = (fs, Node c l k v a r)"
    and io: "inorder root = before fs @ inorder (Node c l k v a r) @ after fs"
  shows "cmp key k = EQ" and "\<forall>x \<in> set (before fs @ inorder l). cmp (fst x) key = LT"
proof -
  show eq: "cmp key k = EQ" using descend_found d by fast
  show "\<forall>x \<in> set (before fs @ inorder l). cmp (fst x) key = LT"
  proof
    fix x assume x: "x \<in> set (before fs @ inorder l)"
    show "cmp (fst x) key = LT"
    proof (cases "x \<in> set (before fs)")
      case True
      then show ?thesis using descend_between(1) [OF law asc d] by blast
    next
      case False
      then have "x \<in> set (inorder l)" using x by simp
      then have "cmp (fst x) k = LT"
        using asc unfolding io by (auto simp: ascending_append ascending_Cons)
      then show ?thesis using lawful_LT_EQ [OF law _ eq] by blast
    qed
  qed
qed

lemma insertNode_result:
  assumes rb: "rbinv (rb_root s)" and d: "descend cmp key [] (rb_root s) = (fs, t)"
  shows "\<exists>s'. insertNode upd cmp s key value = Inr s' \<and> rbinv (rb_root s')
           \<and> inorder (rb_root s') = before fs @ inserted key value t @ after fs
           \<and> rb_size s' = rb_size s + (if t = Leaf then 1 else 0)"
proof -
  note dr = descend_shape [OF rb d]
  show ?thesis
  proof (cases t)
    case Leaf
    have at: "attach cmp key fs = fs"
      using descend_attach [of cmp key "[]" "rb_root s" fs] d Leaf by (simp add: attach_def)
    let ?node = "Node Red Leaf key value (upd Leaf key Leaf) Leaf"
    have "\<exists>T np'. insertFixup upd fs ?node (pathOf fs) = Inr (T, np') \<and> rbinv T
            \<and> inorder T = before fs @ inorder ?node @ after fs"
      using dr(2) Leaf by (intro insertFixup_ok) simp_all
    then obtain T np' where fx: "insertFixup upd fs ?node (pathOf fs) = Inr (T, np')"
      and rT: "rbinv T" and iT: "inorder T = before fs @ (key, value) # after fs"
      by auto
    show ?thesis
      using fx rT iT by (simp add: insertNode_def d Leaf at)
  next
    case (Node c l k v a r)
    have "rbinv (plug fs (Node c l k value a r))"
      using dr(2-5) fits_color [of "Node c l k value a r" t fs]
      by (intro plug_rbinv) (simp_all add: Node)
    then show ?thesis
      by (simp add: insertNode_def d Node inorder_plug)
  qed
qed

subsection \<open>\<open>deleteFixup\<close> restores the red-black invariants\<close>

lemma black_node:
  "color_of t = Black \<Longrightarrow> bheight t = Suc h \<Longrightarrow> \<exists>l k v a r. t = Node Black l k v a r"
  by (cases t) auto

lemma red_node':
  "color_of t = Red \<Longrightarrow> \<exists>l k v a r. t = Node Red l k v a r"
  by (cases t) auto

lemma redSibling_ok:
  assumes ctx: "ctx_ok (p # fs) (Suc h)" and d: "fdir p = d"
  shows "\<exists>p1 fs1. redSibling d upd p fs t = Inr (p1, fs1) \<and> ctx_ok (p1 # fs1) (Suc h)
           \<and> color_of (fsib p1) = Black \<and> fdir p1 = d
           \<and> before (p1 # fs1) @ inorder t @ after (p1 # fs1)
               = before (p # fs) @ inorder t @ after (p # fs)"
proof (cases "color_of (fsib p)")
  case Black
  then show ?thesis using ctx d by (simp add: redSibling_def)
next
  case Red
  then obtain wl wk wv wa wr where w: "fsib p = Node Red wl wk wv wa wr"
    using red_node' by blast
  have pb: "fcolor p = Black" using ctx Red by auto
  obtain pk pv pa where p: "p = Frame d Black pk pv pa (Node Red wl wk wv wa wr)"
    using pb d w by (cases p) auto
  show ?thesis
    using ctx by (cases d) (simp_all add: redSibling_def p)
qed

lemma farRed_ok:
  assumes p: "p = Frame d pc pk pv pa (Node Black wl wk wv wa wr)"
    and nb: "\<not> (color_of wl = Black \<and> color_of wr = Black)"
    and il: "invc wl" and ir: "invc wr" and hl: "invh wl" and hr: "invh wr"
    and bl: "bheight wl = bheight t" and br: "bheight wr = bheight t"
    and it: "invc t" and ht: "invh t"
  shows "\<exists>W. farRed d upd p t = Inr W \<and> color_of W = pc \<and> invc W \<and> invh W
           \<and> bheight W = (if pc = Black then Suc (Suc (bheight t)) else Suc (bheight t))
           \<and> inorder W = inorder (up p t)"
proof (cases d)
  case L
  show ?thesis
  proof (cases "color_of wr")
    case Red
    then obtain rl rk rv ra rr where wr: "wr = Node Red rl rk rv ra rr"
      using red_node' by blast
    show ?thesis
      using il ir hl hr bl br it ht by (simp add: farRed_def p L wr)
  next
    case Black
    then have "color_of wl = Red" using nb by (cases "color_of wl") auto
    then obtain ll lk lv la lr where wl: "wl = Node Red ll lk lv la lr"
      using red_node' by blast
    show ?thesis
      using il ir hl hr bl br it ht Black by (simp add: farRed_def p L wl)
  qed
next
  case R
  show ?thesis
  proof (cases "color_of wl")
    case Red
    then obtain ll lk lv la lr where wl: "wl = Node Red ll lk lv la lr"
      using red_node' by blast
    show ?thesis
      using il ir hl hr bl br it ht by (simp add: farRed_def p R wl)
  next
    case Black
    then have "color_of wr = Red" using nb by (cases "color_of wr") auto
    then obtain rl rk rv ra rr where wr: "wr = Node Red rl rk rv ra rr"
      using red_node' by blast
    show ?thesis
      using il ir hl hr bl br it ht Black by (simp add: farRed_def p R wr)
  qed
qed

lemma deleteFixup_ok:
  "ctx_ok fs (Suc (bheight t)) \<Longrightarrow> invc (paint Black t) \<Longrightarrow> invh t \<Longrightarrow>
   \<exists>T. deleteFixup upd fs t = Inr T \<and> rbinv T \<and> inorder T = before fs @ inorder t @ after fs"
proof (induction "2 * length fs + (if color_of t = Black then 1 else 0)" arbitrary: fs t
    rule: less_induct)
  case less
  note ctx = less.prems(1) and ic = less.prems(2) and ih = less.prems(3)
  show ?case
  proof (cases fs)
    case Nil
    then show ?thesis using ic ih by (simp add: rbinv_def)
  next
    case (Cons p fs')
    show ?thesis
    proof (cases "color_of t")
      case Red
      have "rbinv (plug fs (paint Black t))"
        using ctx ic ih Red by (intro plug_rbinv) (auto simp: Cons fits_def)
      then show ?thesis
        using Red by (simp add: Cons inorder_plug inorder_up del: ctx_ok.simps)
    next
      case Black
      then have ict: "invc t" using ic by (simp add: paint_Black_id)
      define d where "d = fdir p"
      have sib: "fsib p \<noteq> Leaf" using ctx Cons by auto
      have dd: "(if isChild L p t then L else R) = d"
        using sib by (cases "fdir p") (auto simp: isChild_def d_def)
      from redSibling_ok [of p fs' "bheight t" d upd t] ctx obtain p1 fs1 where
        rs: "redSibling d upd p fs' t = Inr (p1, fs1)"
        and cx1: "ctx_ok (p1 # fs1) (Suc (bheight t))"
        and wb: "color_of (fsib p1) = Black" and d1: "fdir p1 = d"
        and io: "before (p1 # fs1) @ inorder t @ after (p1 # fs1)
                 = before fs @ inorder t @ after fs"
        by (auto simp: Cons d_def)
      have "bheight (fsib p1) = Suc (bheight t)" using cx1 by simp
      from black_node [OF wb this] obtain wl wk wv wa wr where
        w: "fsib p1 = Node Black wl wk wv wa wr" by blast
      obtain pc pk pv pa where p1: "p1 = Frame d pc pk pv pa (Node Black wl wk wv wa wr)"
        using w d1 by (cases p1) auto
      have il: "invc wl" and ir: "invc wr" and hl: "invh wl" and hr: "invh wr"
        and bl: "bheight wl = bheight t" and br: "bheight wr = bheight t"
        and cx: "ctx_ok fs1 (if pc = Black then Suc (Suc (bheight t)) else Suc (bheight t))"
        and pr: "pc = Black \<or> (fs1 \<noteq> [] \<and> fcolor (hd fs1) = Black)"
        using cx1 by (auto simp: p1)
      show ?thesis
      proof (cases "color_of wl = Black \<and> color_of wr = Black")
        case True
        let ?t' = "up (setSib (Node Red wl wk wv wa wr) p1) t"
        have step: "deleteFixup upd fs t = deleteFixup upd fs1 ?t'"
          using Black True by (simp add: Cons dd rs w)
        have len: "fs1 = fs' \<or> (length fs1 = Suc (length fs') \<and> fcolor p1 = Red)"
          using redSibling_length [OF rs] .
        have "\<exists>T. deleteFixup upd fs1 ?t' = Inr T \<and> rbinv T
                \<and> inorder T = before fs1 @ inorder ?t' @ after fs1"
        proof (rule less.hyps)
          show "2 * length fs1 + (if color_of ?t' = Black then 1 else 0)
                < 2 * length fs + (if color_of t = Black then 1 else 0)"
            using len Black by (auto simp: Cons color_of_up)
          show "ctx_ok fs1 (Suc (bheight ?t'))"
            using cx bl by (cases d; cases pc) (simp_all add: p1)
          show "invc (paint Black ?t')"
            using il ir ict True by (cases d) (simp_all add: p1)
          show "invh ?t'"
            using hl hr ih bl br by (cases d) (simp_all add: p1)
        qed
        moreover have "before fs1 @ inorder ?t' @ after fs1
                       = before (p1 # fs1) @ inorder t @ after (p1 # fs1)"
          by (cases d) (simp_all add: p1)
        ultimately show ?thesis using io by (simp add: step)
      next
        case False
        from farRed_ok [OF p1 False il ir hl hr bl br ict ih, of upd] obtain W where
          fr: "farRed d upd p1 t = Inr W" and cW: "color_of W = pc" and iW: "invc W"
          and hW: "invh W"
          and bW: "bheight W = (if pc = Black then Suc (Suc (bheight t)) else Suc (bheight t))"
          and oW: "inorder W = inorder (up p1 t)"
          by blast
        have nb: "(color_of wl = Black \<and> color_of wr = Black) = False" using False by simp
        have step: "deleteFixup upd fs t = Inr (paint Black (plug fs1 W))"
          using Black by (simp add: Cons dd rs w fr nb del: de_Morgan_conj)
        have "fits fs1 W" using pr cW by (cases fs1) (auto simp: fits_def)
        then have "rbinv (plug fs1 W)"
          using cx iW hW bW by (intro plug_rbinv) simp_all
        then have "rbinv (paint Black (plug fs1 W))" by (rule rbinv_paint)
        moreover have "inorder (plug fs1 W) = before (p1 # fs1) @ inorder t @ after (p1 # fs1)"
          by (simp add: inorder_plug oW inorder_up)
        ultimately show ?thesis using io by (simp add: step)
      qed
    qed
  qed
qed

subsection \<open>Deletion\<close>

lemma ctx_ok_cong: "map shape fs = map shape fs' \<Longrightarrow> ctx_ok fs h = ctx_ok fs' h"
proof (induction fs arbitrary: fs' h)
  case Nil
  then show ?case by simp
next
  case (Cons fr fs)
  then obtain gr gs where fs': "fs' = gr # gs" by (cases fs') auto
  have eq0: "shape fr = shape gr" and eq3: "map shape fs = map shape gs"
    using Cons.prems by (simp_all add: fs')
  have eq: "fcolor fr = fcolor gr" "fsib fr = fsib gr" "map shape fs = map shape gs"
    using eq0 eq3 by (simp_all add: shape_def)
  have hd: "(fs \<noteq> [] \<and> fcolor (hd fs) = Black) = (gs \<noteq> [] \<and> fcolor (hd gs) = Black)"
    using eq(3) by (cases fs; cases gs) (auto simp: shape_def)
  show ?case
    using Cons.IH [OF eq(3)] eq(1,2) hd by (simp add: fs')
qed

lemma fits_cong: "map shape fs = map shape fs' \<Longrightarrow> fits fs t = fits fs' t"
  by (cases fs; cases fs') (auto simp: fits_def shape_def)

lemma before_after_cong:
  "map entry fs = map entry fs' \<Longrightarrow> before fs = before fs' \<and> after fs = after fs'"
proof (induction fs arbitrary: fs')
  case Nil
  then show ?case by simp
next
  case (Cons fr fs)
  then obtain gr gs where fs': "fs' = gr # gs" by (cases fs') auto
  have e: "entry fr = entry gr" and m: "map entry fs = map entry gs"
    using Cons.prems by (simp_all add: fs')
  have "fdir fr = fdir gr" "fkey fr = fkey gr" "fval fr = fval gr" "fsib fr = fsib gr"
    using e by (simp_all add: entry_def)
  then show ?case using Cons.IH [OF m] by (simp add: fs')
qed

lemma refreshFrame_proj [simp]:
  "shape (refreshFrame upd fr t) = shape fr" "entry (refreshFrame upd fr t) = entry fr"
  by (simp_all add: refreshFrame_def shape_def entry_def)

lemma copyInto_proj [simp]:
  "shape (copyInto k v fr) = shape fr"
  "entry (copyInto k v fr) = (fdir fr, k, v, fsib fr)"
  by (simp_all add: copyInto_def shape_def entry_def)

lemma updateParentsMax_proj [simp]:
  "map shape (updateParentsMax upd fs t) = map shape fs"
  "map entry (updateParentsMax upd fs t) = map entry fs"
  by (induction upd fs t rule: updateParentsMax.induct) simp_all

lemma length_updateParentsMax [simp]: "length (updateParentsMax upd fs t) = length fs"
  by (induction upd fs t rule: updateParentsMax.induct) simp_all

lemma before_append: "before (as @ bs) = before bs @ before as"
  by (induction as) auto

lemma after_append: "after (as @ bs) = after as @ after bs"
  by (induction as) auto

lemma leftmost_ok:
  "leftmost fs t = (fs', y) \<Longrightarrow> t \<noteq> Leaf \<Longrightarrow>
   \<exists>ys yc yk yv ya yr. fs' = ys @ fs \<and> y = Node yc Leaf yk yv ya yr
     \<and> before ys = [] \<and> inorder y @ after ys = inorder t
     \<and> (ctx_ok fs (bheight t) \<and> invc t \<and> invh t \<and> fits fs t
          \<longrightarrow> ctx_ok fs' (bheight y) \<and> invc y \<and> invh y \<and> fits fs' y)"
proof (induction fs t rule: leftmost.induct)
  case (1 fs)
  then show ?case by simp
next
  case (2 fs c k v a r)
  then show ?case by auto
next
  case (3 fs c lc ll lk lv la lr k v a r)
  let ?l = "Node lc ll lk lv la lr"
  have lm: "leftmost (Frame L c k v a r # fs) ?l = (fs', y)" using "3.prems" by simp
  from "3.IH" [OF lm] obtain ys yc yk yv ya yr where
    a: "fs' = ys @ Frame L c k v a r # fs" and b: "y = Node yc Leaf yk yv ya yr"
    and c: "before ys = []" and d: "inorder y @ after ys = inorder ?l"
    and e: "ctx_ok (Frame L c k v a r # fs) (bheight ?l) \<and> invc ?l \<and> invh ?l
              \<and> fits (Frame L c k v a r # fs) ?l
            \<longrightarrow> ctx_ok fs' (bheight y) \<and> invc y \<and> invh y \<and> fits fs' y"
    by blast
  have f: "ctx_ok (Frame L c k v a r # fs) (bheight ?l) \<and> invc ?l \<and> invh ?l
              \<and> fits (Frame L c k v a r # fs) ?l"
    if "ctx_ok fs (bheight (Node c ?l k v a r))" "invc (Node c ?l k v a r)"
      "invh (Node c ?l k v a r)" "fits fs (Node c ?l k v a r)"
  proof -
    have "c = Black \<or> (fs \<noteq> [] \<and> fcolor (hd fs) = Black)"
      using that(4) by (cases fs) (auto simp: fits_def)
    then show ?thesis using that(1-3) by (cases c) (auto simp: fits_def)
  qed
  show ?case
  proof (intro exI conjI)
    show "fs' = (ys @ [Frame L c k v a r]) @ fs" using a by simp
    show "y = Node yc Leaf yk yv ya yr" by (rule b)
    show "before (ys @ [Frame L c k v a r]) = []" using c by (simp add: before_append)
    show "inorder y @ after (ys @ [Frame L c k v a r]) = inorder (Node c ?l k v a r)"
      using d by (simp add: after_append)
    show "ctx_ok fs (bheight (Node c ?l k v a r)) \<and> invc (Node c ?l k v a r)
            \<and> invh (Node c ?l k v a r) \<and> fits fs (Node c ?l k v a r)
          \<longrightarrow> ctx_ok fs' (bheight y) \<and> invc y \<and> invh y \<and> fits fs' y"
      using e f by blast
  qed
qed

lemma leftmost_shift:
  "leftmost fs t = (fs', y) \<Longrightarrow> leftmost (fs @ gs) t = (fs' @ gs, y)"
  by (induction fs t rule: leftmost.induct) auto

text \<open>The frames after \<open>y\<close> is unlinked and its key and value are copied into \<open>z\<close>:
  those of before, but for the key and value of \<open>z\<close> and the annotations.\<close>

lemma copied_frames:
  fixes upd yk yv x fs1 n
  assumes sh: "map shape fs1 = map shape (ys0 @ zfr # fz)"
    and en: "map entry fs1 = map entry (ys0 @ zfr # fz)"
    and n: "n = Suc (length ys0)"
  defines "nearFs \<equiv> take (n - 1) fs1"
  defines "zf \<equiv> refreshFrame upd (copyInto yk yv (fs1 ! (n - 1))) (plug nearFs x)"
  defines "farFs \<equiv> updateParentsMax upd (drop n fs1) (up zf (plug nearFs x))"
  shows "map shape (nearFs @ zf # farFs) = map shape (ys0 @ zfr # fz)"
    and "map entry (nearFs @ zf # farFs) = map entry (ys0 @ copyInto yk yv zfr # fz)"
proof -
  have len: "length fs1 = length ys0 + Suc (length fz)"
    using arg_cong [OF sh, of length] by simp
  have b_sh: "map shape nearFs = map shape ys0"
    using arg_cong [OF sh, of "take (length ys0)"] by (simp add: nearFs_def n take_map)
  have b_en: "map entry nearFs = map entry ys0"
    using arg_cong [OF en, of "take (length ys0)"] by (simp add: nearFs_def n take_map)
  have z_sh: "shape (fs1 ! length ys0) = shape zfr"
    using arg_cong [OF sh, of "\<lambda>xs. xs ! length ys0"] len by (simp add: nth_append)
  have z_en: "entry (fs1 ! length ys0) = entry zfr"
    using arg_cong [OF en, of "\<lambda>xs. xs ! length ys0"] len by (simp add: nth_append)
  have a_sh: "map shape (drop n fs1) = map shape fz"
    using arg_cong [OF sh, of "drop n"] by (simp add: n drop_map)
  have a_en: "map entry (drop n fs1) = map entry fz"
    using arg_cong [OF en, of "drop n"] by (simp add: n drop_map)
  show "map shape (nearFs @ zf # farFs) = map shape (ys0 @ zfr # fz)"
    using b_sh z_sh a_sh by (simp add: zf_def farFs_def n)
  have "fdir (fs1 ! length ys0) = fdir zfr" "fsib (fs1 ! length ys0) = fsib zfr"
    using z_en by (simp_all add: entry_def)
  then show "map entry (nearFs @ zf # farFs) = map entry (ys0 @ copyInto yk yv zfr # fz)"
    using b_en a_en by (simp add: zf_def farFs_def n)
qed

lemma refreshed_frames:
  "map shape (updateParentsMax upd (case fs of [] \<Rightarrow> [] | p # ps \<Rightarrow> refreshFrame upd p x # ps) x)
     = map shape fs"
  "map entry (updateParentsMax upd (case fs of [] \<Rightarrow> [] | p # ps \<Rightarrow> refreshFrame upd p x # ps) x)
     = map entry fs"
  by (cases fs; simp)+

lemma removed_ok:
  assumes "if yc = Black then ctx_ok fs (Suc (bheight x)) else ctx_ok fs (bheight x) \<and> fits fs x"
    and "invc x" and "invh x"
  shows "\<exists>T. (if yc = Black then deleteFixup upd fs x else Inr (plug fs x)) = Inr T \<and> rbinv T
           \<and> inorder T = before fs @ inorder x @ after fs"
proof (cases yc)
  case Black
  then show ?thesis
    using deleteFixup_ok [of fs x upd] assms by simp
next
  case Red
  then show ?thesis
    using plug_rbinv [of fs x] assms by (simp add: inorder_plug)
qed

lemma deleteNode_ok:
  assumes ctx: "ctx_ok fz (bheight z)" and ic: "invc z" and ih: "invh z" and ft: "fits fz z"
    and z: "z = Node zc zl zk zv za zr"
  shows "\<exists>T. deleteNode upd fz z = Inr T \<and> rbinv T
           \<and> inorder T = before fz @ inorder zl @ inorder zr @ after fz"
proof (cases "zl = Leaf \<or> zr = Leaf")
  case True
  define x where "x = (if zl \<noteq> Leaf then zl else zr)"
  define fs1 where
    "fs1 = updateParentsMax upd (case fz of [] \<Rightarrow> [] | p # ps \<Rightarrow> refreshFrame upd p x # ps) x"
  have sh: "map shape fs1 = map shape fz" and en: "map entry fs1 = map entry fz"
    unfolding fs1_def by (rule refreshed_frames)+
  have dn: "deleteNode upd fz z = (if zc = Black then deleteFixup upd fs1 x else Inr (plug fs1 x))"
    using True by (simp add: deleteNode_def z x_def fs1_def Let_def cong: list.case_cong)
  have xio: "inorder x = inorder zl @ inorder zr" using True by (auto simp: x_def)
  have xi: "invc x" "invh x" using ic ih by (auto simp: x_def z)
  have xb: "bheight x = bheight zl" using ih by (auto simp: x_def z)
  have xc: "zc = Red \<Longrightarrow> color_of x = Black" using ic by (auto simp: x_def z)
  have c1: "if zc = Black then ctx_ok fs1 (Suc (bheight x))
            else ctx_ok fs1 (bheight x) \<and> fits fs1 x"
  proof (cases zc)
    case Black
    then show ?thesis using ctx xb by (simp add: ctx_ok_cong [OF sh] z)
  next
    case Red
    have "fits fz x" using xc [OF Red] by (cases fz) (auto simp: fits_def)
    then show ?thesis using ctx xb Red by (simp add: ctx_ok_cong [OF sh] fits_cong [OF sh] z)
  qed
  show ?thesis
    using removed_ok [OF c1 xi, of upd] before_after_cong [OF en] by (simp add: dn xio)
next
  case False
  then have zrn: "zr \<noteq> Leaf" and zln: "zl \<noteq> Leaf" by auto
  let ?zfr = "Frame R zc zk zv za zl"
  obtain ys y where lm: "leftmost [?zfr] zr = (ys, y)" by (cases "leftmost [?zfr] zr")
  have pre: "ctx_ok (?zfr # fz) (bheight zr) \<and> invc zr \<and> invh zr \<and> fits (?zfr # fz) zr"
  proof -
    have "zc = Black \<or> (fz \<noteq> [] \<and> fcolor (hd fz) = Black)"
      using ft by (cases fz) (auto simp: fits_def z)
    then show ?thesis using ctx ic ih by (cases zc) (auto simp: fits_def z)
  qed
  have lm': "leftmost (?zfr # fz) zr = (ys @ fz, y)"
    using leftmost_shift [OF lm, of fz] by simp
  from leftmost_ok [OF lm' zrn] pre obtain ys0 yc yk yv ya yr where
    ys: "ys @ fz = ys0 @ ?zfr # fz" and y: "y = Node yc Leaf yk yv ya yr"
    and b0: "before ys0 = []" and io: "inorder y @ after ys0 = inorder zr"
    and cy: "ctx_ok (ys @ fz) (bheight y)" and iy: "invc y" and hy: "invh y"
    and fy: "fits (ys @ fz) y"
    by blast
  have ys_eq: "ys = ys0 @ [?zfr]" using ys by simp
  define fs1 where
    "fs1 = updateParentsMax upd
             (case ys @ fz of [] \<Rightarrow> [] | p # ps \<Rightarrow> refreshFrame upd p yr # ps) yr"
  define fs2 where
    "fs2 = take (length ys - 1) fs1
           @ refreshFrame upd (copyInto yk yv (fs1 ! (length ys - 1)))
               (plug (take (length ys - 1) fs1) yr)
           # updateParentsMax upd (drop (length ys) fs1)
               (up (refreshFrame upd (copyInto yk yv (fs1 ! (length ys - 1)))
                      (plug (take (length ys - 1) fs1) yr))
                   (plug (take (length ys - 1) fs1) yr))"
  have sh1: "map shape fs1 = map shape (ys0 @ ?zfr # fz)"
    and en1: "map entry fs1 = map entry (ys0 @ ?zfr # fz)"
    unfolding fs1_def refreshed_frames ys by (rule refl)+
  have n: "length ys = Suc (length ys0)" by (simp add: ys_eq)
  have sh2: "map shape fs2 = map shape (ys @ fz)"
    unfolding fs2_def ys by (rule copied_frames(1) [OF sh1 en1 n])
  have en2: "map entry fs2 = map entry (ys0 @ copyInto yk yv ?zfr # fz)"
    unfolding fs2_def by (rule copied_frames(2) [OF sh1 en1 n])
  have dn: "deleteNode upd fz z = (if yc = Black then deleteFixup upd fs2 yr else Inr (plug fs2 yr))"
    using False by (simp add: deleteNode_def z lm y fs1_def fs2_def Let_def ys_eq cong: list.case_cong)
  have c1: "if yc = Black then ctx_ok fs2 (Suc (bheight yr))
            else ctx_ok fs2 (bheight yr) \<and> fits fs2 yr"
  proof (cases yc)
    case Black
    then show ?thesis using cy hy by (simp add: ctx_ok_cong [OF sh2] y)
  next
    case Red
    have "color_of yr = Black" using iy Red by (simp add: y)
    then have "fits (ys @ fz) yr" by (cases "ys @ fz") (auto simp: fits_def)
    then show ?thesis using cy hy Red by (simp add: ctx_ok_cong [OF sh2] fits_cong [OF sh2] y)
  qed
  have bf: "before fs2 = before fz @ inorder zl @ [(yk, yv)]"
    and af: "after fs2 = after ys0 @ after fz"
    using before_after_cong [OF en2] b0
    by (simp_all add: before_append after_append copyInto_def)
  have "inorder zr = (yk, yv) # inorder yr @ after ys0" using io by (simp add: y)
  then show ?thesis
    using removed_ok [OF c1, of upd] iy hy by (simp add: dn bf af y)
qed

subsection \<open>Sequences of operations\<close>

lemma rb_find_descend:
  "rb_find cmp key root =
     (case descend cmp key [] root of (fs, Leaf) \<Rightarrow> None | (fs, t) \<Rightarrow> Some (fs, t))"
  by (auto simp: rb_find_def split: prod.splits tree.splits)

lemma ascending_remove:
  "ascending cmp (xs @ y # ys) \<Longrightarrow> ascending cmp (xs @ ys)"
  by (auto simp: ascending_append ascending_Cons)

lemma rb_delete_result:
  assumes rb: "rbinv (rb_root s)" and d: "descend cmp key [] (rb_root s) = (fs, t)"
  shows "\<exists>s'. rb_delete upd cmp s key = Inr (t \<noteq> Leaf, s') \<and> rbinv (rb_root s')
           \<and> inorder (rb_root s') = before fs @ removed t @ after fs
           \<and> rb_size s' = rb_size s - (if t = Leaf then 0 else 1)"
proof -
  note dr = descend_shape [OF rb d]
  show ?thesis
  proof (cases t)
    case Leaf
    then show ?thesis using rb dr(1) by (simp add: rb_delete_def rb_find_descend d)
  next
    case (Node c l k v a r)
    from deleteNode_ok [OF dr(2-5) Node, of upd] obtain T where
      dn: "deleteNode upd fs (Node c l k v a r) = Inr T" and rT: "rbinv T"
      and iT: "inorder T = before fs @ inorder l @ inorder r @ after fs"
      unfolding Node by blast
    show ?thesis
      using rT iT by (simp add: rb_delete_def rb_find_descend d Node dn)
  qed
qed

lemma set_shaped:
  assumes "shaped s"
  shows "\<exists>s'. rb_set upd cmp s key v = Inr s' \<and> shaped s'"
proof -
  obtain fs t where d: "descend cmp key [] (rb_root s) = (fs, t)"
    by (cases "descend cmp key [] (rb_root s)")
  have rb: "rbinv (rb_root s)" using assms by (simp add: shaped_def)
  have io: "inorder (rb_root s) = before fs @ inorder t @ after fs"
    using descend_shape(1) [OF rb d] .
  from insertNode_result [OF rb d, of upd v] obtain s' where
    s': "insertNode upd cmp s key v = Inr s'" "rbinv (rb_root s')"
      "inorder (rb_root s') = before fs @ inserted key v t @ after fs"
      "rb_size s' = rb_size s + (if t = Leaf then 1 else 0)"
    by blast
  have "rb_size s' = int (length (inorder (rb_root s')))"
    using assms s'(3,4) io by (cases t) (simp_all add: shaped_def)
  then show ?thesis using s'(1,2) by (simp add: rb_set_def shaped_def)
qed

lemma delete_shaped:
  assumes "shaped s"
  shows "\<exists>b s'. rb_delete upd cmp s key = Inr (b, s') \<and> shaped s'"
proof -
  obtain fs t where d: "descend cmp key [] (rb_root s) = (fs, t)"
    by (cases "descend cmp key [] (rb_root s)")
  have rb: "rbinv (rb_root s)" using assms by (simp add: shaped_def)
  have io: "inorder (rb_root s) = before fs @ inorder t @ after fs"
    using descend_shape(1) [OF rb d] .
  from rb_delete_result [OF rb d, of upd] obtain s' where
    s': "rb_delete upd cmp s key = Inr (t \<noteq> Leaf, s')" "rbinv (rb_root s')"
      "inorder (rb_root s') = before fs @ removed t @ after fs"
      "rb_size s' = rb_size s - (if t = Leaf then 0 else 1)"
    by blast
  have "rb_size s' = int (length (inorder (rb_root s')))"
    using assms s'(3,4) io by (cases t) (simp_all add: shaped_def)
  then show ?thesis
    by (intro exI [of _ "t \<noteq> Leaf"] exI [of _ s'] conjI)
      (use s'(1,2) in \<open>simp_all add: shaped_def\<close>)
qed

lemma run_shaped:
  "shaped s \<Longrightarrow> \<exists>s'. run upd cmp s ops = Inr s' \<and> shaped s'"
proof (induction ops arbitrary: s)
  case Nil
  then show ?case by simp
next
  case (Cons op ops)
  show ?case
  proof (cases op)
    case (Set k v)
    from set_shaped [OF Cons.prems, of upd cmp k v] obtain s1 where
      s1: "rb_set upd cmp s k v = Inr s1" "shaped s1" by blast
    show ?thesis using Cons.IH [OF s1(2)] s1(1) by (simp add: Set)
  next
    case (Delete k)
    from delete_shaped [OF Cons.prems, of upd cmp k] obtain b s1 where
      s1: "rb_delete upd cmp s k = Inr (b, s1)" "shaped s1" by blast
    show ?thesis using Cons.IH [OF s1(2)] s1(1) by (simp add: Delete)
  qed
qed

lemma shaped_new: "shaped rb_new"
  by (simp add: shaped_def rb_new_def rbinv_def)

lemma well_formed_shaped: "well_formed cmp s \<Longrightarrow> shaped s"
  by (simp add: well_formed_def shaped_def)

lemma set_well_formed:
  assumes law: "lawful cmp" and wf: "well_formed cmp s"
  shows "\<exists>s'. rb_set upd cmp s key v = Inr s' \<and> well_formed cmp s'
           \<and> inorder (rb_root s') = alist_set cmp key v (inorder (rb_root s))"
proof -
  obtain fs t where d: "descend cmp key [] (rb_root s) = (fs, t)"
    by (cases "descend cmp key [] (rb_root s)")
  have rb: "rbinv (rb_root s)" and asc: "ascending cmp (inorder (rb_root s))"
    and sz: "rb_size s = int (length (inorder (rb_root s)))"
    using wf by (simp_all add: well_formed_def)
  have io: "inorder (rb_root s) = before fs @ inorder t @ after fs"
    using descend_shape(1) [OF rb d] .
  note bt = descend_between [OF law asc d]
  from insertNode_result [OF rb d, of upd v] obtain s' where
    s': "insertNode upd cmp s key v = Inr s'" "rbinv (rb_root s')"
      "inorder (rb_root s') = before fs @ inserted key v t @ after fs"
      "rb_size s' = rb_size s + (if t = Leaf then 1 else 0)"
    by blast
  have sz': "rb_size s' = int (length (inorder (rb_root s')))"
    using sz s'(3,4) io by (cases t) simp_all
  have new: "alist_set cmp key v (inorder (rb_root s)) = inorder (rb_root s')
             \<and> ascending cmp (inorder (rb_root s'))"
  proof (cases t)
    case Leaf
    have "alist_set cmp key v (before fs @ after fs) = before fs @ (key, v) # after fs"
      by (rule alist_set_new [OF law bt])
    moreover have "ascending cmp (before fs @ (key, v) # after fs)"
      using asc bt unfolding io Leaf by (auto simp: ascending_append ascending_Cons)
    ultimately show ?thesis using io s'(3) Leaf by simp
  next
    case (Node c l k v' a r)
    note lf = descend_left_of_found [OF law asc d [unfolded Node] io [unfolded Node]]
    have "alist_set cmp key v ((before fs @ inorder l) @ (k, v') # inorder r @ after fs)
          = (before fs @ inorder l) @ (k, v) # inorder r @ after fs"
      by (rule alist_set_found [OF law lf(2) lf(1)])
    moreover have "ascending cmp ((before fs @ inorder l) @ (k, v) # inorder r @ after fs)"
      using asc unfolding io Node
      by (subst ascending_map_fst
            [where ys = "(before fs @ inorder l) @ (k, v') # inorder r @ after fs"]) simp_all
    ultimately show ?thesis using io s'(3) Node by simp
  qed
  show ?thesis
    using s'(1,2) sz' new by (simp add: rb_set_def well_formed_def)
qed

lemma delete_well_formed:
  assumes law: "lawful cmp" and wf: "well_formed cmp s"
  shows "\<exists>b s'. rb_delete upd cmp s key = Inr (b, s') \<and> well_formed cmp s'
           \<and> inorder (rb_root s') = alist_delete cmp key (inorder (rb_root s))"
proof -
  obtain fs t where d: "descend cmp key [] (rb_root s) = (fs, t)"
    by (cases "descend cmp key [] (rb_root s)")
  have rb: "rbinv (rb_root s)" and asc: "ascending cmp (inorder (rb_root s))"
    and sz: "rb_size s = int (length (inorder (rb_root s)))"
    using wf by (simp_all add: well_formed_def)
  have io: "inorder (rb_root s) = before fs @ inorder t @ after fs"
    using descend_shape(1) [OF rb d] .
  note bt = descend_between [OF law asc d]
  from rb_delete_result [OF rb d, of upd] obtain s' where
    s': "rb_delete upd cmp s key = Inr (t \<noteq> Leaf, s')" "rbinv (rb_root s')"
      "inorder (rb_root s') = before fs @ removed t @ after fs"
      "rb_size s' = rb_size s - (if t = Leaf then 0 else 1)"
    by blast
  have sz': "rb_size s' = int (length (inorder (rb_root s')))"
    using sz s'(3,4) io by (cases t) simp_all
  have new: "alist_delete cmp key (inorder (rb_root s)) = inorder (rb_root s')
             \<and> ascending cmp (inorder (rb_root s'))"
  proof (cases t)
    case Leaf
    have "alist_delete cmp key (before fs @ after fs) = before fs @ after fs"
      by (rule alist_delete_absent [OF law bt])
    then show ?thesis using io s'(3) asc Leaf by simp
  next
    case (Node c l k v' a r)
    note lf = descend_left_of_found [OF law asc d [unfolded Node] io [unfolded Node]]
    have "alist_delete cmp key ((before fs @ inorder l) @ (k, v') # inorder r @ after fs)
          = (before fs @ inorder l) @ inorder r @ after fs"
      by (rule alist_delete_found [OF law lf(2) lf(1)])
    moreover have "ascending cmp ((before fs @ inorder l) @ (k, v') # inorder r @ after fs)"
      using asc unfolding io Node by simp
    then have "ascending cmp ((before fs @ inorder l) @ inorder r @ after fs)"
      by (rule ascending_remove)
    ultimately show ?thesis using io s'(3) Node by simp
  qed
  show ?thesis
    by (intro exI [of _ "t \<noteq> Leaf"] exI [of _ s'] conjI)
      (use s'(1,2) sz' new in \<open>simp_all add: well_formed_def\<close>)
qed

lemma well_formed_new: "well_formed cmp rb_new"
  by (simp add: well_formed_def rb_new_def rbinv_def)

lemma run_well_formed:
  "lawful cmp \<Longrightarrow> well_formed cmp s \<Longrightarrow>
   \<exists>s'. run upd cmp s ops = Inr s' \<and> well_formed cmp s'
     \<and> inorder (rb_root s') = contents cmp (inorder (rb_root s)) ops"
proof (induction ops arbitrary: s)
  case Nil
  then show ?case by simp
next
  case (Cons op ops)
  show ?case
  proof (cases op)
    case (Set k v)
    from set_well_formed [OF Cons.prems, of upd k v] obtain s1 where
      s1: "rb_set upd cmp s k v = Inr s1" "well_formed cmp s1"
        "inorder (rb_root s1) = alist_set cmp k v (inorder (rb_root s))"
      by blast
    show ?thesis
      using Cons.IH [OF Cons.prems(1) s1(2)] s1(1,3) by (simp add: Set)
  next
    case (Delete k)
    from delete_well_formed [OF Cons.prems, of upd k] obtain b s1 where
      s1: "rb_delete upd cmp s k = Inr (b, s1)" "well_formed cmp s1"
        "inorder (rb_root s1) = alist_delete cmp k (inorder (rb_root s))"
      by blast
    show ?thesis
      using Cons.IH [OF Cons.prems(1) s1(2)] s1(1,3) by (simp add: Delete)
  qed
qed

lemma reachable_shaped: "\<exists>s. run upd cmp rb_new ops = Inr s \<and> shaped s"
  using run_shaped [OF shaped_new] .

lemma reachable_well_formed:
  assumes "lawful cmp"
  shows "\<exists>s. run upd cmp rb_new ops = Inr s \<and> well_formed cmp s
           \<and> inorder (rb_root s) = contents cmp [] ops"
  using run_well_formed [OF assms well_formed_new, of upd ops] by (simp add: rb_new_def)

subsection \<open>The comparators of the two classes\<close>

lemma lawful_defaultCompareFunction: "lawful (defaultCompareFunction :: ('k :: linorder) CompareFn)"
  unfolding lawful_def defaultCompareFunction_def by (auto split: if_splits)

lemma lawful_compareFn: "lawful (compareFn :: ('n :: linorder) Interval CompareFn)"
  unfolding lawful_def compareFn_def by (auto split: if_splits)

subsection \<open>What the checkers see in a well-formed state\<close>

lemma depths_bounds:
  "invc t \<Longrightarrow> invh t \<Longrightarrow>
   fst (depths t) \<le> 2 * bheight t + (if color_of t = Red then 1 else 0)
   \<and> bheight t \<le> snd (depths t)"
proof (induction t)
  case Leaf
  then show ?case by simp
next
  case (Node c l k v a r)
  then show ?case
    by (cases c; cases "color_of l"; cases "color_of r")
      (auto split: prod.splits)
qed

lemma rbinv_balanced: "rbinv (rb_root s) \<Longrightarrow> checkBalanceInvariant s"
  using depths_bounds [of "rb_root s"]
  by (auto simp: rbinv_def checkBalanceInvariant_def split: prod.splits)

lemma traverse_ascending:
  assumes law: "lawful cmp"
  shows "ascending cmp (inorder t) \<Longrightarrow>
    (\<forall>b. mn = Some b \<longrightarrow> (\<forall>x \<in> set (inorder t). cmp b (fst x) = LT)) \<Longrightarrow>
    (\<forall>b. mx = Some b \<longrightarrow> (\<forall>x \<in> set (inorder t). cmp (fst x) b = LT)) \<Longrightarrow>
    traverse truthy cmp t mn mx"
proof (induction t arbitrary: mn mx)
  case Leaf
  then show ?case by simp
next
  case (Node c l k v a r)
  have al: "ascending cmp (inorder l)" and ar: "ascending cmp (inorder r)"
    and lk: "\<forall>x \<in> set (inorder l). cmp (fst x) k = LT"
    and kr: "\<forall>x \<in> set (inorder r). cmp k (fst x) = LT"
    using Node.prems(1) by (auto simp: ascending_append ascending_Cons)
  have 1: "noBound truthy mn \<or> cmp k (the mn) = GT"
    using Node.prems(2) lawful_GT [OF law] by (cases mn) (auto simp: noBound_def)
  have 2: "noBound truthy mx \<or> cmp k (the mx) = LT"
    using Node.prems(3) by (cases mx) (auto simp: noBound_def)
  have 3: "traverse truthy cmp l mn (Some k)"
    using Node.prems(2) lk by (intro Node.IH(1) al) auto
  have 4: "traverse truthy cmp r (Some k) mx"
    using Node.prems(3) kr by (intro Node.IH(2) ar) auto
  show ?case using 1 2 3 4 by simp
qed

lemma well_formed_ordered:
  "lawful cmp \<Longrightarrow> well_formed cmp s \<Longrightarrow> checkOrderInvariant truthy cmp s"
  using traverse_ascending [of cmp "rb_root s" None None truthy]
  by (simp add: well_formed_def checkOrderInvariant_def)

subsection \<open>The invariants, the entries and the size after any operations\<close>

lemma run_reaches:
  "run noHook defaultCompareFunction rb_new
     [Set 4 5, Set 2 3, Set 3 4, Set 1 2, Set 5 6, Set 6 7, Delete 2, Delete 4, Set 5 0]
     = Inr oneThreeFiveSix"
  "run updateNodeMax compareFn rb_new
     [Set (0, 10) ''foo'', Set (5, 20) ''bar'', Set (7, 8) ''baz'', Delete (0, 10)]
     = Inr barBaz"
  "run noHook numberCompare rb_new
     [Set (Num 1) (), Set NaN (), Set (Num 5) (), Set (Num 6) (), Set (Num 7) (),
      Set (Num 8) (), Set (Num 9) (), Set (Num 10) ()]
     = Inr withNaN"
  "run noHook numberCompare rb_new [Set (Num 1) (), Set NaN ()] = Inr oneNaN"
  by code_simp+

text \<open>C3, amended. After any sequence of \<open>set\<close> and \<open>delete\<close> on a new \<open>RBTree\<close> or
  \<open>IntervalTree\<close> no call has thrown and \<open>checkBalanceInvariant\<close> returns true, whatever
  the comparator; \<open>checkOrderInvariant\<close> returns true when the comparator is lawful, as
  the one of \<open>IntervalTree\<close> is on intervals of ordered numbers.\<close>

theorem checkers_hold_with_lawful_comparator:
  assumes "lawful cmp"
  shows "(\<exists>s. run noHook cmp rb_new ops = Inr s
              \<and> checkBalanceInvariant s \<and> checkOrderInvariant truthy cmp s)
       \<and> (\<exists>s. run updateNodeMax compareFn rb_new iops = Inr s
              \<and> checkBalanceInvariant s \<and> checkOrderInvariant truthyInterval compareFn s)
       \<and> (\<exists>s. run upd anyCmp rb_new anyOps = Inr s \<and> checkBalanceInvariant s)"
proof (intro conjI)
  from reachable_well_formed [OF assms, of noHook ops] obtain s where
    "run noHook cmp rb_new ops = Inr s" "well_formed cmp s" by blast
  then show "\<exists>s. run noHook cmp rb_new ops = Inr s
              \<and> checkBalanceInvariant s \<and> checkOrderInvariant truthy cmp s"
    using rbinv_balanced [of s] well_formed_ordered [OF assms, of s truthy]
    by (auto simp: well_formed_def)
next
  from reachable_well_formed [OF lawful_compareFn, of updateNodeMax iops] obtain s where
    "run updateNodeMax compareFn rb_new iops = Inr s" "well_formed compareFn s" by blast
  then show "\<exists>s. run updateNodeMax compareFn rb_new iops = Inr s
              \<and> checkBalanceInvariant s \<and> checkOrderInvariant truthyInterval compareFn s"
    using rbinv_balanced [of s] well_formed_ordered [OF lawful_compareFn, of s truthyInterval]
    by (auto simp: well_formed_def)
next
  from reachable_shaped [of upd anyCmp anyOps] obtain s where
    "run upd anyCmp rb_new anyOps = Inr s" "shaped s" by blast
  then show "\<exists>s. run upd anyCmp rb_new anyOps = Inr s \<and> checkBalanceInvariant s"
    using rbinv_balanced [of s] by (auto simp: shaped_def)
qed

theorem checkers_hold_with_lawful_comparator_witness:
  "run noHook defaultCompareFunction rb_new
     [Set 4 5, Set 2 3, Set 3 4, Set 1 2, Set 5 6, Set 6 7, Delete 2, Delete 4, Set 5 0]
     = Inr oneThreeFiveSix
   \<and> checkBalanceInvariant oneThreeFiveSix
   \<and> checkOrderInvariant truthyNumber defaultCompareFunction oneThreeFiveSix
   \<and> run updateNodeMax compareFn rb_new
       [Set (0, 10) ''foo'', Set (5, 20) ''bar'', Set (7, 8) ''baz'', Delete (0, 10)]
       = Inr barBaz
   \<and> checkBalanceInvariant barBaz
   \<and> checkOrderInvariant truthyInterval compareFn barBaz
   \<and> checkBalanceInvariant withNaN"
  using checkers_hold_with_lawful_comparator [OF lawful_defaultCompareFunction,
      of "[Set 4 5, Set 2 3, Set 3 4, Set 1 2, Set 5 6, Set 6 7, Delete 2, Delete 4, Set 5 (0 :: int)]
           :: (int, int) operation list"
         truthyNumber
         "[Set (0, 10) ''foo'', Set (5, 20) ''bar'', Set (7, 8) ''baz'', Delete (0, 10)]
           :: (int Interval, string) operation list"
         noHook numberCompare
         "[Set (Num 1) (), Set NaN (), Set (Num 5) (), Set (Num 6) (), Set (Num 7) (),
           Set (Num 8) (), Set (Num 9) (), Set (Num 10) ()]"]
  unfolding run_reaches by auto

text \<open>C3 as stated fails. With the default comparator and the number keys 1, \<open>NaN\<close>, 5, 6,
  7, 8, 9 and 10 set in this order, the rotations bring \<open>NaN\<close> into the left subtree of
  the root 6, and \<open>checkOrderInvariant\<close> returns false: \<open>NaN\<close> does not compare \<open>LT\<close>
  with 6.\<close>

theorem checkOrderInvariant_false_with_NaN_key:
  "run noHook numberCompare rb_new
     [Set (Num 1) (), Set NaN (), Set (Num 5) (), Set (Num 6) (), Set (Num 7) (),
      Set (Num 8) (), Set (Num 9) (), Set (Num 10) ()]
     = Inr withNaN
   \<and> checkOrderInvariant truthyJsNumber numberCompare withNaN = False"
  by code_simp

text \<open>C4, amended. After any sequence of \<open>set\<close> and \<open>delete\<close> on a new \<open>RBTree\<close> with a
  lawful comparator, or on a new \<open>IntervalTree\<close> (intervals of ordered numbers), no call
  has thrown and \<open>entries\<close> yields a finite sequence, which is exactly the contents of the
  map (what the operations, read as updates of an association list, leave), with keys
  strictly ascending by the comparator.\<close>

theorem entries_ascending_with_lawful_comparator:
  assumes "lawful cmp"
  shows "(\<exists>s. run noHook cmp rb_new ops = Inr s
              \<and> entries s = contents cmp [] ops \<and> ascending cmp (entries s))
       \<and> (\<exists>s. run updateNodeMax compareFn rb_new iops = Inr s
              \<and> entries s = contents compareFn [] iops \<and> ascending compareFn (entries s))"
proof (intro conjI)
  from reachable_well_formed [OF assms, of noHook ops] obtain s where
    "run noHook cmp rb_new ops = Inr s" "well_formed cmp s"
    "inorder (rb_root s) = contents cmp [] ops" by blast
  then show "\<exists>s. run noHook cmp rb_new ops = Inr s
              \<and> entries s = contents cmp [] ops \<and> ascending cmp (entries s)"
    by (auto simp: well_formed_def entries_inorder)
next
  from reachable_well_formed [OF lawful_compareFn, of updateNodeMax iops] obtain s where
    "run updateNodeMax compareFn rb_new iops = Inr s" "well_formed compareFn s"
    "inorder (rb_root s) = contents compareFn [] iops" by blast
  then show "\<exists>s. run updateNodeMax compareFn rb_new iops = Inr s
              \<and> entries s = contents compareFn [] iops \<and> ascending compareFn (entries s)"
    by (auto simp: well_formed_def entries_inorder)
qed

theorem entries_ascending_with_lawful_comparator_witness:
  "run noHook defaultCompareFunction rb_new
     [Set 4 5, Set 2 3, Set 3 4, Set 1 2, Set 5 6, Set 6 7, Delete 2, Delete 4, Set 5 0]
     = Inr oneThreeFiveSix
   \<and> entries oneThreeFiveSix = [(1, 2), (3, 4), (5, 0), (6, 7)]
   \<and> contents defaultCompareFunction []
       [Set 4 5, Set 2 3, Set 3 4, Set 1 2, Set 5 6, Set 6 7, Delete 2, Delete 4, Set 5 0]
       = [(1, 2), (3, 4), (5, 0), (6 :: int, 7 :: int)]
   \<and> ascending defaultCompareFunction (entries oneThreeFiveSix)
   \<and> run updateNodeMax compareFn rb_new
       [Set (0, 10) ''foo'', Set (5, 20) ''bar'', Set (7, 8) ''baz'', Delete (0, 10)]
       = Inr barBaz
   \<and> entries barBaz = [((5, 20), ''bar''), ((7, 8), ''baz'')]
   \<and> ascending compareFn (entries barBaz)"
proof -
  have c: "contents defaultCompareFunction []
       [Set 4 5, Set 2 3, Set 3 4, Set 1 2, Set 5 6, Set 6 7, Delete 2, Delete 4, Set 5 0]
       = [(1, 2), (3, 4), (5, 0), (6 :: int, 7 :: int)]"
    by code_simp
  have c2: "contents compareFn []
       [Set (0, 10) ''foo'', Set (5, 20) ''bar'', Set (7, 8) ''baz'', Delete (0, 10)]
       = [((5 :: int, 20 :: int), ''bar''), ((7, 8), ''baz'')]"
    by code_simp
  show ?thesis
    using entries_ascending_with_lawful_comparator [OF lawful_defaultCompareFunction,
      of "[Set 4 5, Set 2 3, Set 3 4, Set 1 2, Set 5 6, Set 6 7, Delete 2, Delete 4, Set 5 (0 :: int)]
           :: (int, int) operation list"
         "[Set (0, 10) ''foo'', Set (5, 20) ''bar'', Set (7, 8) ''baz'', Delete (0, 10)]
           :: (int Interval, string) operation list"]
    unfolding run_reaches c c2 by auto
qed

text \<open>C4 as stated fails. With the default comparator, after \<open>set(1, v)\<close> and
  \<open>set(NaN, v)\<close> \<open>entries\<close> yields the key 1 and then the key \<open>NaN\<close>, and 1 does not
  compare \<open>LT\<close> with \<open>NaN\<close>: the sequence is not ascending by the active comparator.\<close>

theorem entries_not_ascending_with_NaN_key:
  "run noHook numberCompare rb_new [Set (Num 1) (), Set NaN ()] = Inr oneNaN
   \<and> entries oneNaN = [(Num 1, ()), (NaN, ())]
   \<and> numberCompare (Num 1) NaN = GT
   \<and> ascending numberCompare (entries oneNaN) = False"
  unfolding run_reaches by (simp add: entries_inorder oneNaN_def ascending_def numberCompare_def)

text \<open>C10. After any sequence of \<open>set\<close> and \<open>delete\<close> on a new \<open>RBTree\<close>, whatever its
  comparator, or on a new \<open>IntervalTree\<close>, no call has thrown and \<open>size\<close> is the number of
  pairs that \<open>entries\<close> yields.\<close>

theorem size_is_number_of_entries:
  "(\<exists>s. run noHook cmp rb_new ops = Inr s \<and> rb_size s = int (length (entries s)))
   \<and> (\<exists>s. run updateNodeMax compareFn rb_new iops = Inr s
          \<and> rb_size s = int (length (entries s)))"
  using reachable_shaped [of noHook cmp ops] reachable_shaped [of updateNodeMax compareFn iops]
  by (auto simp: shaped_def entries_inorder)

theorem size_is_number_of_entries_witness:
  "run noHook numberCompare rb_new
     [Set (Num 1) (), Set NaN (), Set (Num 5) (), Set (Num 6) (), Set (Num 7) (),
      Set (Num 8) (), Set (Num 9) (), Set (Num 10) ()]
     = Inr withNaN
   \<and> rb_size withNaN = 8
   \<and> length (entries withNaN) = 8
   \<and> run updateNodeMax compareFn rb_new
       [Set (0, 10) ''foo'', Set (5, 20) ''bar'', Set (7, 8) ''baz'', Delete (0, 10)]
       = Inr barBaz
   \<and> rb_size barBaz = 2
   \<and> length (entries barBaz) = 2"
  using size_is_number_of_entries [of numberCompare
      "[Set (Num 1) (), Set NaN (), Set (Num 5) (), Set (Num 6) (), Set (Num 7) (),
        Set (Num 8) (), Set (Num 9) (), Set (Num 10) ()]"
      "[Set (0, 10) ''foo'', Set (5, 20) ''bar'', Set (7, 8) ''baz'', Delete (0, 10)]
           :: (int Interval, string) operation list"]
  unfolding run_reaches by (auto simp: entries_inorder withNaN_def barBaz_def)

end
